theory Spec2Isabelle
  imports Main "HOL-Library.Word"
begin

section \<open>Bytes, strings and the C library\<close>

text \<open>
  Both programs exchange bytes over a TCP socket. A byte is an \<open>unsigned char\<close>, modelled
  as an 8-bit word; a C string is the list of its bytes before the terminating NUL, so
  \<open>strlen\<close> is \<open>length\<close>.
\<close>

type_synonym u8 = "8 word"

definition bytes :: "string \<Rightarrow> u8 list" where
  "bytes s = map (\<lambda>c. of_nat (of_char c :: nat)) s"

text \<open>The constants of \<^verbatim>\<open>hangman_server.c\<close>.\<close>

definition MAX_WORDS :: nat where "MAX_WORDS = 1024"
definition MAX_WORD_LEN :: nat where "MAX_WORD_LEN = 16"
definition MAX_INCORRECT :: nat where "MAX_INCORRECT = 8"

text \<open>
  Neither program calls \<open>setlocale\<close>, so \<open>isalpha\<close> and \<open>tolower\<close> run in the "C"
  locale: the letters are \<open>A..Z\<close> (65..90) and \<open>a..z\<close> (97..122), and \<open>tolower\<close> adds 32
  to an upper-case letter and returns every other byte unchanged.
\<close>

definition isalpha :: "u8 \<Rightarrow> bool" where
  "isalpha b = ((65 \<le> b \<and> b \<le> 90) \<or> (97 \<le> b \<and> b \<le> 122))"

definition tolower :: "u8 \<Rightarrow> u8" where
  "tolower b = (if 65 \<le> b \<and> b \<le> 90 then b + 32 else b)"

section \<open>The socket\<close>

text \<open>
  One end of a connection. \<open>rx\<close> holds the bytes the peer sends before it closes, in
  order; reading past them is the end of the stream (\<open>recv\<close> returns 0). \<open>tx\<close> collects
  the bytes delivered to the peer. \<open>tx_room\<close> is the transport's failure point:
  \<open>None\<close> when the peer takes everything, \<open>Some k\<close> when \<open>send\<close> starts to fail
  after \<open>k\<close> more bytes.
\<close>

record conn =
  rx :: "u8 list"
  tx :: "u8 list"
  tx_room :: "nat option"

text \<open>\<open>recv(fd, &b, 1, 0)\<close>: the count returned, the byte read, the connection after.\<close>

definition recv1 :: "conn \<Rightarrow> int \<times> u8 \<times> conn" where
  "recv1 c = (case rx c of [] \<Rightarrow> (0, 0, c) | b # r \<Rightarrow> (1, b, c\<lparr>rx := r\<rparr>))"

text \<open>
  \<open>recv_all\<close>: 0 and the \<open>len\<close> bytes read, or -1 when the stream ends first
  (what was left of it has been consumed into the buffer).
\<close>

definition recv_all :: "conn \<Rightarrow> nat \<Rightarrow> int \<times> u8 list \<times> conn" where
  "recv_all c len =
     (if len \<le> length (rx c) then (0, take len (rx c), c\<lparr>rx := drop len (rx c)\<rparr>)
      else (-1, rx c, c\<lparr>rx := []\<rparr>))"

text \<open>\<open>send_all\<close>: 0 when every byte was sent, -1 once \<open>send\<close> fails.\<close>

definition send_all :: "conn \<Rightarrow> u8 list \<Rightarrow> int \<times> conn" where
  "send_all c buf =
     (case tx_room c of
        None \<Rightarrow> (0, c\<lparr>tx := tx c @ buf\<rparr>)
      | Some k \<Rightarrow>
          if length buf \<le> k
          then (0, c\<lparr>tx := tx c @ buf, tx_room := Some (k - length buf)\<rparr>)
          else (-1, c\<lparr>tx := tx c @ take k buf, tx_room := Some 0\<rparr>))"

section \<open>The server: \<^verbatim>\<open>hangman_server.c\<close>\<close>

subsection \<open>Loading the word list\<close>

text \<open>
  One round of the loop of \<open>load_words\<close> on the bytes \<open>fgets\<close> put into the buffer:
  the walk \<open>while (*p && *p != '\n' && *p != '\r')\<close> cuts the line at the first NUL,
  newline or carriage return; the line is skipped when it is empty, longer than
  \<open>MAX_WORD_LEN\<close> or not alphabetic, and stored in lower case otherwise.
\<close>

definition load_line :: "u8 list \<Rightarrow> u8 list option" where
  "load_line ln =
     (let line = takeWhile (\<lambda>b. b \<noteq> 0 \<and> b \<noteq> 10 \<and> b \<noteq> 13) ln;
          len = length line
      in if len = 0 then None
         else if len > MAX_WORD_LEN then None
         else if \<not> list_all isalpha line then None
         else Some (map tolower line))"

text \<open>
  The loop itself stops at \<open>MAX_WORDS\<close> words or at the end of the file; \<open>load_words\<close>
  exits the process (\<open>None\<close>) when no word was loaded.
\<close>

fun load_loop :: "u8 list list \<Rightarrow> u8 list list \<Rightarrow> u8 list list" where
  "load_loop words [] = words"
| "load_loop words (ln # lns) =
     (if length words < MAX_WORDS
      then (case load_line ln of
              None \<Rightarrow> load_loop words lns
            | Some w \<Rightarrow> load_loop (words @ [w]) lns)
      else words)"

definition load_words :: "u8 list list \<Rightarrow> u8 list list option" where
  "load_words lns =
     (let words = load_loop [] lns in if length words = 0 then None else Some words)"

subsection \<open>Sending packets\<close>

definition send_message_packet :: "conn \<Rightarrow> u8 list \<Rightarrow> int \<times> conn" where
  "send_message_packet c msg =
     (let len = (if length msg > 255 then 255 else length msg);
          header = (of_nat len :: u8)
      in case send_all c [header] of (r, c1) \<Rightarrow>
           if r < 0 then (-1, c1)
           else if len > 0
           then (case send_all c1 (take len msg) of (r2, c2) \<Rightarrow>
                   if r2 < 0 then (-1, c2) else (0, c2))
           else (0, c1))"

text \<open>
  \<open>send_game_state\<close> copies \<open>word_len\<close> bytes of \<open>masked\<close> and \<open>num_incorrect\<close> bytes of
  \<open>incorrect\<close> into a buffer of \<open>2 * MAX_WORD_LEN\<close> bytes and sends the three header
  bytes and then the buffer's filled part.
\<close>

definition send_game_state :: "conn \<Rightarrow> u8 list \<Rightarrow> u8 list \<Rightarrow> u8 \<Rightarrow> u8 \<Rightarrow> int \<times> conn" where
  "send_game_state c masked incorrect word_len num_incorrect =
     (if word_len = 0 \<or> unat word_len > MAX_WORD_LEN then (-1, c)
      else if unat word_len + unat num_incorrect > MAX_WORD_LEN + MAX_WORD_LEN then (-1, c)
      else
        let header = [0, word_len, num_incorrect];
            data = map (\<lambda>i. masked ! i) [0..<unat word_len]
                 @ map (\<lambda>j. incorrect ! j) [0..<unat num_incorrect]
        in case send_all c header of (r, c1) \<Rightarrow>
             if r < 0 then (-1, c1)
             else (case send_all c1 data of (r2, c2) \<Rightarrow>
                     if r2 < 0 then (-1, c2) else (0, c2)))"

subsection \<open>The session\<close>

text \<open>
  The local variables of \<open>handle_client\<close> that make up one game. \<open>masked\<close> is the array
  \<open>char masked[MAX_WORD_LEN]\<close> and \<open>incorrect\<close> the array
  \<open>unsigned char incorrect[MAX_INCORRECT]\<close>; the code reads only their first
  \<open>word_len\<close> and \<open>num_incorrect\<close> cells.
\<close>

record session =
  secret :: "u8 list"
  word_len :: u8
  masked :: "u8 list"
  incorrect :: "u8 list"
  num_incorrect :: u8

datatype status = Playing | Won | Lost | Closed

text \<open>
  The search loops of \<open>handle_client\<close> (is the letter in \<open>masked\<close>, is it in
  \<open>incorrect\<close>, is a placeholder left) have one shape: walk the cells \<open>i..<n\<close> and
  break at the first one that holds the byte.
\<close>

function scan :: "u8 list \<Rightarrow> u8 \<Rightarrow> nat \<Rightarrow> nat \<Rightarrow> bool" where
  "scan xs b i n = (if i < n then (if xs ! i = b then True else scan xs b (Suc i) n) else False)"
  by pat_completeness auto
termination
  by (relation "measure (\<lambda>(xs, b, i, n). n - i)") auto

declare scan.simps [simp del]

text \<open>The loop that reveals the letter at every matching position and sets \<open>found\<close>.\<close>

definition reveal :: "u8 list \<Rightarrow> u8 \<Rightarrow> nat \<Rightarrow> u8 list \<Rightarrow> u8 list \<times> bool" where
  "reveal sec letter n m0 =
     fold (\<lambda>i (m, found). if sec ! i = letter then (m[i := letter], True) else (m, found))
       [0..<n] (m0, False)"

text \<open>The state change of one guess, the letter already in lower case.\<close>

definition apply_guess :: "session \<Rightarrow> u8 \<Rightarrow> session" where
  "apply_guess s letter =
     (let already_guessed =
            (if scan (masked s) letter 0 (unat (word_len s)) then True
             else scan (incorrect s) letter 0 (unat (num_incorrect s)))
      in if \<not> already_guessed
         then (case reveal (secret s) letter (unat (word_len s)) (masked s) of (m, found) \<Rightarrow>
                 let s1 = s\<lparr>masked := m\<rparr>
                 in if \<not> found
                    then (if unat (num_incorrect s1) < MAX_INCORRECT
                          then s1\<lparr>incorrect := (incorrect s1)[unat (num_incorrect s1) := letter],
                                  num_incorrect := num_incorrect s1 + 1\<rparr>
                          else s1)
                    else s1)
         else s)"

definition all_revealed :: "session \<Rightarrow> bool" where
  "all_revealed s = (\<not> scan (masked s) 95 0 (unat (word_len s)))"

text \<open>
  The reveal message, built by \<open>snprintf\<close> into a buffer of \<open>3 * MAX_WORD_LEN + 32\<close>
  bytes: 12 bytes of text and two bytes for each letter, which fit for every word of
  at most \<open>MAX_WORD_LEN\<close> letters.
\<close>

definition word_msg :: "u8 list \<Rightarrow> nat \<Rightarrow> u8 list" where
  "word_msg sec n = bytes ''The word was'' @ concat (map (\<lambda>i. [32, sec ! i]) [0..<n])"

text \<open>The three messages of the end of a game; their results are discarded.\<close>

definition send_final :: "conn \<Rightarrow> session \<Rightarrow> u8 list \<Rightarrow> conn" where
  "send_final c s verdict =
     (let c1 = snd (send_message_packet c (word_msg (secret s) (unat (word_len s))));
          c2 = snd (send_message_packet c1 verdict)
      in snd (send_message_packet c2 (bytes ''Game Over!'')))"

text \<open>
  The loop that drains a guess packet whose length byte is not 1. Its chunk is the
  whole rest, since \<open>remaining\<close> starts below 256.
\<close>

function drain :: "conn \<Rightarrow> nat \<Rightarrow> conn" where
  "drain c remaining =
     (if remaining > 0
      then (let chunk = (if remaining < 256 then remaining else 256)
            in case recv_all c chunk of (r, buf, c1) \<Rightarrow>
                 if r < 0 then c1 else drain c1 (remaining - chunk))
      else c)"
  by pat_completeness auto
termination
  by (relation "measure (\<lambda>(c, remaining). remaining)") (auto split: if_splits)

declare drain.simps [simp del]

text \<open>
  One round of the guess loop: the status tells whether the loop goes on (\<open>Playing\<close>),
  or why it was left.
\<close>

definition guess_iter :: "session \<Rightarrow> conn \<Rightarrow> status \<times> session \<times> conn" where
  "guess_iter s c =
     (case recv1 c of (n, guess_len, c1) \<Rightarrow>
        if n \<le> 0 then (Closed, s, c1)
        else if guess_len \<noteq> 1 then (Playing, s, drain c1 (unat guess_len))
        else (case recv_all c1 1 of (r, buf, c2) \<Rightarrow>
          if r < 0 then (Closed, s, c2)
          else
            let letter = tolower (buf ! 0);
                s1 = apply_guess s letter
            in if all_revealed s1
               then (Won, s1, send_final c2 s1 (bytes ''You Win!''))
               else if unat (num_incorrect s1) \<ge> MAX_INCORRECT
               then (Lost, s1, send_final c2 s1 (bytes ''You Lose.''))
               else (case send_game_state c2 (masked s1) (incorrect s1)
                            (word_len s1) (num_incorrect s1) of (r3, c3) \<Rightarrow>
                       if r3 < 0 then (Closed, s1, c3) else (Playing, s1, c3))))"

text \<open>
  The guess loop: rounds until one leaves the status Playing. (The loop ends with the
  client's stream; the proof is in the section on termination.)
\<close>

function guess_loop :: "session \<Rightarrow> conn \<Rightarrow> status \<times> session \<times> conn" where
  "guess_loop s c =
     (case guess_iter s c of (st, s1, c1) \<Rightarrow>
        if st = Playing then guess_loop s1 c1 else (st, s1, c1))"
  by pat_completeness auto

text \<open>
  Step 2 of \<open>handle_client\<close>: the word at index \<open>rand() % num_words\<close>, its length, and
  the two arrays as the stack holds them (\<open>masked0\<close>, \<open>incorrect0\<close>: they are not
  initialised), the first \<open>word_len\<close> cells of \<open>masked\<close> set to the placeholder.
\<close>

definition init_session :: "u8 list list \<Rightarrow> nat \<Rightarrow> u8 list \<Rightarrow> u8 list \<Rightarrow> session" where
  "init_session words rnd masked0 incorrect0 =
     (let idx = rnd mod length words;
          sec = words ! idx;
          wl = (of_nat (length sec) :: u8)
      in \<lparr>secret = sec, word_len = wl,
          masked = fold (\<lambda>i m. m[i := 95]) [0..<unat wl] masked0,
          incorrect = incorrect0, num_incorrect = 0\<rparr>)"

text \<open>
  What a call of \<open>handle_client\<close> leaves: no game when the connection ended before the
  start byte, or the game with the status it ended in.
\<close>

datatype outcome = NoGame conn | Game status session conn

definition handle_client :: "u8 list list \<Rightarrow> nat \<Rightarrow> u8 list \<Rightarrow> u8 list \<Rightarrow> conn \<Rightarrow> outcome" where
  "handle_client words rnd masked0 incorrect0 c =
     (case send_message_packet c (bytes ''Welcome to Hangman'') of (r, c1) \<Rightarrow>
        if r < 0 then NoGame c1
        else (case recv1 c1 of (n, msg_len, c2) \<Rightarrow>
          if n \<le> 0 then NoGame c2
          else
            let s = init_session words rnd masked0 incorrect0
            in case send_game_state c2 (masked s) (incorrect s) (word_len s) (num_incorrect s)
               of (r2, c3) \<Rightarrow>
                 if r2 < 0 then Game Closed s c3
                 else (case guess_loop s c3 of (st, s', c') \<Rightarrow> Game st s' c')))"

section \<open>The client: \<^verbatim>\<open>hangman_client.c\<close>\<close>

text \<open>
  The client's \<open>recv_all\<close> and \<open>send_all\<close> are the server's. Its terminal is the input
  still to be read from \<open>stdin\<close> and the bytes printed on \<open>stdout\<close> (the diagnostics
  on \<open>stderr\<close> are left out).
\<close>

record client =
  sock :: conn
  stdin :: "u8 list"
  stdout :: "u8 list"

subsection \<open>Receiving one packet\<close>

text \<open>
  \<open>recv_and_print_one_packet\<close> first reads a packet and then prints it. The model names
  the two halves: \<open>recv_packet\<close> is the reading, with \<open>None\<close> for each \<open>return -1\<close>, and
  \<open>print_packet\<close> the printing and the code returned. In a game-control packet
  \<open>word_state\<close> and \<open>incorrect\<close> are the two parts of the data that the pointers of
  these names address (\<open>wlen\<close>, \<open>nbad\<close> and \<open>bad\<close> are the client's \<open>word_len\<close>,
  \<open>num_incorrect\<close> and \<open>incorrect\<close>, names the server's session holds here).
\<close>

datatype packet =
    Message u8 "u8 list"
  | GameControl u8 u8 "u8 list" "u8 list"

definition recv_packet :: "conn \<Rightarrow> packet option \<times> conn" where
  "recv_packet c =
     (case recv_all c 1 of (r, b, c1) \<Rightarrow>
        if r < 0 then (None, c1)
        else
          let msg_flag = b ! 0
          in if msg_flag > 0
             then (case recv_all c1 (unat msg_flag) of (r2, data, c2) \<Rightarrow>
                     if r2 < 0 then (None, c2) else (Some (Message msg_flag data), c2))
             else (case recv_all c1 2 of (r2, header, c2) \<Rightarrow>
                     if r2 < 0 then (None, c2)
                     else
                       let wlen = header ! 0;
                           nbad = header ! 1
                       in if wlen > 8 then (None, c2)
                          else
                            let data_len = unat wlen + unat nbad
                            in if data_len > 16 then (None, c2)
                               else (case recv_all c2 data_len of (r3, data, c3) \<Rightarrow>
                                       if r3 < 0 then (None, c3)
                                       else (Some (GameControl wlen nbad
                                                     (take (unat wlen) data)
                                                     (drop (unat wlen) data)), c3))))"

text \<open>\<open>printf("%.*s", n, data)\<close> prints at most \<open>n\<close> bytes and stops at a NUL.\<close>

definition print_str :: "nat \<Rightarrow> u8 list \<Rightarrow> u8 list" where
  "print_str n data = takeWhile (\<lambda>b. b \<noteq> 0) (take n data)"

text \<open>The loops that print the cells of an array with a space between two of them.\<close>

definition print_cells :: "u8 list \<Rightarrow> nat \<Rightarrow> u8 list" where
  "print_cells xs n = concat (map (\<lambda>i. xs ! i # (if i + 1 < n then [32] else [])) [0..<n])"

definition print_packet :: "packet \<Rightarrow> int \<times> u8 list" where
  "print_packet p =
     (case p of
        Message msg_flag data \<Rightarrow>
          let over = bytes ''server-overloaded'';
              game_over = bytes ''Game Over!'';
              out = bytes ''>>>'' @ print_str (unat msg_flag) data @ [10]
          in if unat msg_flag = length over \<and> take (length over) data = over then (1, out)
             else if unat msg_flag = length game_over \<and> take (length game_over) data = game_over
             then (2, out)
             else (4, out)
      | GameControl wlen nbad word_state bad \<Rightarrow>
          (3, bytes ''>>>'' @ print_cells word_state (unat wlen) @ [10]
              @ bytes ''>>>Incorrect Guesses:''
              @ (if nbad > 0
                 then [32] @ print_cells bad (unat nbad) else [])
              @ [10]
              @ bytes ''>>>'' @ [10]))"

definition recv_and_print_one_packet :: "conn \<Rightarrow> int \<times> u8 list \<times> conn" where
  "recv_and_print_one_packet c =
     (case recv_packet c of
        (None, c1) \<Rightarrow> (-1, [], c1)
      | (Some p, c1) \<Rightarrow> (case print_packet p of (r, out) \<Rightarrow> (r, out, c1)))"

subsection \<open>The dialogue of \<open>main\<close>\<close>

text \<open>
  \<open>fgets(line, sz, stdin)\<close>: nothing at the end of the input, or the next bytes up to
  and with the first newline, \<open>sz - 1\<close> of them at most, and the input left.
\<close>

definition fgets :: "nat \<Rightarrow> u8 list \<Rightarrow> (u8 list \<times> u8 list) option" where
  "fgets sz inp =
     (if inp = [] then None
      else
        let ln = take (min (sz - 1) (length (takeWhile (\<lambda>b. b \<noteq> 10) inp) + 1)) inp
        in Some (ln, drop (length ln) inp))"

definition strlen :: "u8 list \<Rightarrow> nat" where
  "strlen buf = length (takeWhile (\<lambda>b. b \<noteq> 0) buf)"

text \<open>
  Both reading loops of \<open>main\<close> (before the first board and after each guess) receive
  and print packets until an error, "Game Over!" or a board, and pass other messages.
\<close>

function read_to_board :: "client \<Rightarrow> int \<times> client" where
  "read_to_board k =
     (case recv_and_print_one_packet (sock k) of (r, out, c1) \<Rightarrow>
        let k1 = k\<lparr>sock := c1, stdout := stdout k @ out\<rparr>
        in if r < 0 then (r, k1)
           else if r = 2 then (r, k1)
           else if r = 3 then (r, k1)
           else read_to_board k1)"
  by pat_completeness auto

text \<open>
  The guess loop. The line is cut at its trailing newline; an empty line leaves the
  loop, a line that is not one letter prints the error and asks again.
\<close>

function guess_prompt_loop :: "client \<Rightarrow> client" where
  "guess_prompt_loop k =
     (let k0 = k\<lparr>stdout := stdout k @ bytes ''>>>Letter to guess: ''\<rparr>
      in case fgets 128 (stdin k0) of
           None \<Rightarrow> k0
         | Some (ln, rest) \<Rightarrow>
             let k1 = k0\<lparr>stdin := rest\<rparr>;
                 len0 = strlen ln;
                 line = (if len0 > 0 \<and> ln ! (len0 - 1) = 10
                         then take (len0 - 1) ln else take len0 ln);
                 len = length line
             in if len = 0 then k1
                else if len \<noteq> 1 \<or> \<not> isalpha (line ! 0)
                then guess_prompt_loop
                       (k1\<lparr>stdout := stdout k1 @ bytes ''>>>Error! Please guess one letter.'' @ [10]\<rparr>)
                else
                  let guess = tolower (line ! 0)
                  in case send_all (sock k1) [1] of (r, c1) \<Rightarrow>
                       if r < 0 then k1\<lparr>sock := c1\<rparr>
                       else (case send_all c1 [guess] of (r2, c2) \<Rightarrow>
                         if r2 < 0 then k1\<lparr>sock := c2\<rparr>
                         else (case read_to_board (k1\<lparr>sock := c2\<rparr>) of (r3, k2) \<Rightarrow>
                           if r3 < 0 \<or> r3 = 2 then k2 else guess_prompt_loop k2)))"
  by pat_completeness auto

text \<open>\<open>main\<close> from the start byte on: wait for the first board, then play.\<close>

definition play :: "client \<Rightarrow> int \<times> client" where
  "play k =
     (case read_to_board k of (r, k1) \<Rightarrow>
        if r < 0 then (1, k1)
        else if r = 2 then (0, k1)
        else (0, guess_prompt_loop k1))"

text \<open>
  \<open>main\<close> from the prompt on: ask, read a line, leave unless its first byte is \<open>y\<close>
  (121) or \<open>Y\<close> (89), send the start byte.
\<close>

definition start_prompt :: "client \<Rightarrow> int \<times> client" where
  "start_prompt k =
     (let k0 = k\<lparr>stdout := stdout k @ bytes ''>>> Ready to start game? (y/n): ''\<rparr>
      in case fgets 128 (stdin k0) of
           None \<Rightarrow> (1, k0)
         | Some (ln, rest) \<Rightarrow>
             let k1 = k0\<lparr>stdin := rest\<rparr>
             in if ln ! 0 \<noteq> 121 \<and> ln ! 0 \<noteq> 89 then (0, k1)
                else (case send_all (sock k1) [0] of (r, c1) \<Rightarrow>
                        if r < 0 then (1, k1\<lparr>sock := c1\<rparr>)
                        else play (k1\<lparr>sock := c1\<rparr>)))"

text \<open>\<open>main\<close> once connected: the exit code and the client's final state.\<close>

definition client_main :: "client \<Rightarrow> int \<times> client" where
  "client_main k =
     (case recv_and_print_one_packet (sock k) of (r, out, c1) \<Rightarrow>
        let k1 = k\<lparr>sock := c1, stdout := stdout k @ out\<rparr>
        in if r < 0 then (1, k1)
           else if r = 1 then (0, k1)
           else if r = 2 then (0, k1)
           else start_prompt k1)"

section \<open>The vocabulary of the specification\<close>

text \<open>
  The MaskedWord and the IncorrectSet of a session are the parts of the two arrays
  that the counters delimit; a placeholder is the byte \<open>_\<close> (95).
\<close>

definition masked_word :: "session \<Rightarrow> u8 list" where
  "masked_word s = take (unat (word_len s)) (masked s)"

definition incorrect_set :: "session \<Rightarrow> u8 list" where
  "incorrect_set s = take (unat (num_incorrect s)) (incorrect s)"

definition placeholders :: "session \<Rightarrow> nat" where
  "placeholders s = length (filter (\<lambda>b. b = 95) (masked_word s))"

text \<open>
  A session as \<open>handle_client\<close> keeps it: the arrays have their declared sizes,
  \<open>word_len\<close> is the length of the secret word, between 1 and \<open>MAX_WORD_LEN\<close> as
  \<open>load_words\<close> stores it, and \<open>num_incorrect\<close> is within the array.
\<close>

definition session_ok :: "session \<Rightarrow> bool" where
  "session_ok s =
     (length (secret s) = unat (word_len s) \<and> 0 < unat (word_len s)
      \<and> unat (word_len s) \<le> MAX_WORD_LEN
      \<and> length (masked s) = MAX_WORD_LEN \<and> length (incorrect s) = MAX_INCORRECT
      \<and> unat (num_incorrect s) \<le> MAX_INCORRECT)"

text \<open>The Playing state: the session at the head of the guess loop.\<close>

definition playing :: "session \<Rightarrow> bool" where
  "playing s = (session_ok s \<and> \<not> all_revealed s \<and> unat (num_incorrect s) < MAX_INCORRECT)"

text \<open>The wire formats of section 6 of the specification.\<close>

definition spec_message :: "u8 list \<Rightarrow> u8 list" where
  "spec_message txt = of_nat (length txt) # txt"

definition spec_game_control :: "u8 list \<Rightarrow> u8 list \<Rightarrow> u8 list" where
  "spec_game_control mw inc = [0, of_nat (length mw), of_nat (length inc)] @ mw @ inc"

definition board :: "session \<Rightarrow> u8 list" where
  "board s = spec_game_control (masked_word s) (incorrect_set s)"

text \<open>The reveal message: "The word was" and the letters, a space before each.\<close>

definition spec_reveal :: "u8 list \<Rightarrow> u8 list" where
  "spec_reveal w = bytes ''The word was'' @ concat (map (\<lambda>b. [32, b]) w)"

definition final_messages :: "session \<Rightarrow> string \<Rightarrow> u8 list" where
  "final_messages s verdict =
     spec_message (spec_reveal (secret s)) @ spec_message (bytes verdict)
     @ spec_message (bytes ''Game Over!'')"

text \<open>
  A session always holds, in each cell of the masked word, the placeholder or the
  letter of the secret word at that position.
\<close>

definition consistent :: "session \<Rightarrow> bool" where
  "consistent s = list_all2 (\<lambda>m x. m = 95 \<or> m = x) (masked_word s) (secret s)"

text \<open>
  The course of a session from the head of the guess loop: the start, in the status
  Playing, and the result of every round played from a Playing state. A round that
  leaves another status is the last one.
\<close>

inductive session_run :: "session \<times> conn \<Rightarrow> status \<times> session \<times> conn \<Rightarrow> bool" where
  start: "session_run (s, c) (Playing, s, c)"
| round: "session_run x (Playing, s, c) \<Longrightarrow> guess_iter s c = r \<Longrightarrow> session_run x r"

code_pred session_run .

text \<open>
  What the later state of a session keeps of the earlier one's masked word: every
  revealed cell, and so at most as many placeholders.
\<close>

definition keeps_revealed :: "session \<Rightarrow> session \<Rightarrow> bool" where
  "keeps_revealed a b =
     (length (masked_word b) = length (masked_word a)
      \<and> (\<forall>i<length (masked_word a).
            masked_word a ! i \<noteq> 95 \<longrightarrow> masked_word b ! i = masked_word a ! i)
      \<and> placeholders b \<le> placeholders a)"

text \<open>
  The affirmative answer of the specification, section 4.4: the line, without its
  newline, is "y" in either case.
\<close>

definition spec_affirmative :: "u8 list \<Rightarrow> bool" where
  "spec_affirmative ln = (map tolower (takeWhile (\<lambda>b. b \<noteq> 10) ln) = bytes ''y'')"

section \<open>Termination of the loops\<close>

text \<open>
  Every round that goes on has read at least the length byte, so the loop ends with
  the client's stream.
\<close>

lemma rx_send_all: "send_all c buf = (r, c') \<Longrightarrow> rx c' = rx c"
  by (auto simp: send_all_def split: option.splits if_splits)

lemma rx_send_message_packet: "send_message_packet c msg = (r, c') \<Longrightarrow> rx c' = rx c"
  by (auto simp: send_message_packet_def Let_def split: prod.splits if_splits
           dest!: rx_send_all)

lemma rx_send_game_state: "send_game_state c m inc wl ni = (r, c') \<Longrightarrow> rx c' = rx c"
  by (auto simp: send_game_state_def Let_def split: prod.splits if_splits
           dest!: rx_send_all)

lemma rx_recv_all_le: "length (rx (snd (snd (recv_all c n)))) \<le> length (rx c)"
  by (simp add: recv_all_def)

lemma rx_drain_le: "length (rx (drain c n)) \<le> length (rx c)"
proof (induction c n rule: drain.induct)
  case (1 c remaining)
  show ?case
  proof (cases "remaining > 0")
    case False
    then show ?thesis by (simp add: drain.simps)
  next
    case True
    define chunk where "chunk = (if remaining < 256 then remaining else 256)"
    obtain r buf c1 where rc: "recv_all c chunk = (r, buf, c1)"
      by (cases "recv_all c chunk") auto
    have le1: "length (rx c1) \<le> length (rx c)"
      using rx_recv_all_le [of c chunk] rc by simp
    show ?thesis
    proof (cases "r < 0")
      case True
      with \<open>remaining > 0\<close> rc le1 show ?thesis
        by (simp add: drain.simps [of c remaining] chunk_def Let_def)
    next
      case False
      have "length (rx (drain c1 (remaining - chunk))) \<le> length (rx c1)"
        using "1.IH" [OF \<open>remaining > 0\<close> chunk_def rc [symmetric] refl False] .
      with \<open>remaining > 0\<close> rc le1 False show ?thesis
        by (simp add: drain.simps [of c remaining] chunk_def Let_def)
    qed
  qed
qed

lemma guess_iter_Playing_rx:
  assumes "guess_iter s c = (Playing, s', c')"
  shows "length (rx c') < length (rx c)"
proof (cases "rx c")
  case Nil
  with assms show ?thesis
    by (simp add: guess_iter_def recv1_def)
next
  case (Cons b r)
  show ?thesis
  proof (cases "b = 1")
    case False
    with assms Cons have "c' = drain (c\<lparr>rx := r\<rparr>) (unat b)"
      by (simp add: guess_iter_def recv1_def)
    with rx_drain_le [of "c\<lparr>rx := r\<rparr>" "unat b"] Cons show ?thesis
      by simp
  next
    case True
    have "rx c' = rx (snd (snd (recv_all (c\<lparr>rx := r\<rparr>) 1)))"
      using assms Cons True
      by (auto simp: guess_iter_def recv1_def Let_def split: prod.splits if_splits
               dest!: rx_send_game_state)
    with rx_recv_all_le [of "c\<lparr>rx := r\<rparr>" 1] Cons show ?thesis
      by simp
  qed
qed

termination guess_loop
  by (relation "measure (\<lambda>(s, c). length (rx c))") (auto dest: guess_iter_Playing_rx [OF sym])

declare guess_loop.simps [simp del]

text \<open>
  The client's reading loop ends with the server's stream: every packet it passes has
  been read from it.
\<close>

lemma recv_all_rx: "recv_all c n = (r, buf, c') \<Longrightarrow> length (rx c') \<le> length (rx c)"
  by (auto simp: recv_all_def split: if_splits)

lemma recv_all_one_rx:
  "recv_all c 1 = (r, buf, c') \<Longrightarrow> \<not> r < 0 \<Longrightarrow> length (rx c') < length (rx c)"
  by (cases "rx c") (auto simp: recv_all_def split: if_splits)

lemma recv_packet_rx:
  assumes "recv_packet c = (Some p, c')"
  shows "length (rx c') < length (rx c)"
proof -
  obtain r b c1 where r1: "recv_all c 1 = (r, b, c1)"
    by (cases "recv_all c 1") auto
  with assms have nr: "\<not> r < 0"
    by (auto simp: recv_packet_def)
  have lt: "length (rx c1) < length (rx c)"
    using recv_all_one_rx [OF r1 nr] .
  have "length (rx c') \<le> length (rx c1)"
  proof (cases "b ! 0 > 0")
    case True
    with assms r1 nr show ?thesis
      by (auto simp: recv_packet_def Let_def split: prod.splits if_splits dest: recv_all_rx)
  next
    case False
    obtain r2 hd2 c2 where r2: "recv_all c1 2 = (r2, hd2, c2)"
      by (cases "recv_all c1 2") auto
    obtain r3 d3 c3 where r3: "recv_all c2 (unat (hd2 ! 0) + unat (hd2 ! 1)) = (r3, d3, c3)"
      by (cases "recv_all c2 (unat (hd2 ! 0) + unat (hd2 ! 1))") auto
    from assms r1 nr False r2 r3 have "c' = c3"
      by (auto simp: recv_packet_def Let_def split: if_splits)
    with recv_all_rx [OF r2] recv_all_rx [OF r3] show ?thesis by simp
  qed
  with lt show ?thesis by simp
qed

lemma recv_and_print_rx:
  "recv_and_print_one_packet c = (r, out, c') \<Longrightarrow> \<not> r < 0 \<Longrightarrow> length (rx c') < length (rx c)"
  by (auto simp: recv_and_print_one_packet_def split: prod.splits option.splits
           dest: recv_packet_rx)

termination read_to_board
  by (relation "measure (\<lambda>k. length (rx (sock k)))") (auto dest: recv_and_print_rx [OF sym])

declare read_to_board.simps [simp del]

text \<open>The client's guess loop ends with the input: every round reads a line.\<close>

lemma stdin_read_to_board: "read_to_board k = (r, k') \<Longrightarrow> stdin k' = stdin k"
proof (induction k arbitrary: r k' rule: read_to_board.induct)
  case (1 k)
  obtain r1 out c1 where rp: "recv_and_print_one_packet (sock k) = (r1, out, c1)"
    by (cases "recv_and_print_one_packet (sock k)") auto
  define k1 where "k1 = k\<lparr>sock := c1, stdout := stdout k @ out\<rparr>"
  show ?case
  proof (cases "r1 < 0 \<or> r1 = 2 \<or> r1 = 3")
    case True
    with "1.prems" rp show ?thesis
      by (auto simp: read_to_board.simps [of k] Let_def)
  next
    case False
    with "1.prems" rp have "read_to_board k1 = (r, k')"
      by (simp add: read_to_board.simps [of k] Let_def k1_def)
    moreover from False have "\<not> r1 < 0" "r1 \<noteq> 2" "r1 \<noteq> 3" by auto
    ultimately have "stdin k' = stdin k1"
      using "1.IH" [OF rp [symmetric] refl k1_def] by blast
    then show ?thesis by (simp add: k1_def)
  qed
qed

lemma fgets_shorter: "fgets 128 inp = Some (ln, rest) \<Longrightarrow> length rest < length inp"
  by (cases inp) (auto simp: fgets_def Let_def split: if_splits)

termination guess_prompt_loop
  by (relation "measure (\<lambda>k. length (stdin k))")
     (auto dest: fgets_shorter dest!: stdin_read_to_board [OF sym])

declare guess_prompt_loop.simps [simp del]

section \<open>The loops of the server\<close>

lemma scan_iff: "scan xs b i n \<longleftrightarrow> (\<exists>j. i \<le> j \<and> j < n \<and> xs ! j = b)"
proof (induction xs b i n rule: scan.induct)
  case (1 xs b i n)
  show ?case
  proof (cases "i < n")
    case False
    then show ?thesis by (simp add: scan.simps [of xs b i n])
  next
    case True
    show ?thesis
    proof (cases "xs ! i = b")
      case True
      with \<open>i < n\<close> show ?thesis
        by (auto simp: scan.simps [of xs b i n])
    next
      case False
      have "scan xs b i n = scan xs b (Suc i) n"
        using \<open>i < n\<close> False by (simp add: scan.simps [of xs b i n])
      also have "\<dots> \<longleftrightarrow> (\<exists>j. Suc i \<le> j \<and> j < n \<and> xs ! j = b)"
        using "1.IH" [OF \<open>i < n\<close> False] .
      also have "\<dots> \<longleftrightarrow> (\<exists>j. i \<le> j \<and> j < n \<and> xs ! j = b)"
        using False by (metis Suc_leD Suc_leI le_neq_implies_less)
      finally show ?thesis .
    qed
  qed
qed

lemma scan_set: "n \<le> length xs \<Longrightarrow> scan xs b 0 n \<longleftrightarrow> b \<in> set (take n xs)"
  by (auto simp: scan_iff in_set_conv_nth)

lemma reveal_Suc:
  "reveal sec l (Suc n) m =
     (case reveal sec l n m of (m', found) \<Rightarrow>
        if sec ! n = l then (m'[n := l], True) else (m', found))"
  by (simp add: reveal_def)

lemma length_reveal: "length (fst (reveal sec l n m)) = length m"
  by (induction n) (auto simp: reveal_Suc reveal_def split: prod.splits)

lemma nth_reveal:
  "j < length m \<Longrightarrow>
   fst (reveal sec l n m) ! j = (if j < n \<and> sec ! j = l then l else m ! j)"
proof (induction n)
  case 0
  then show ?case by (simp add: reveal_def)
next
  case (Suc n)
  obtain m' f where r: "reveal sec l n m = (m', f)"
    by (cases "reveal sec l n m") auto
  have len: "length m' = length m"
    using length_reveal [of sec l n m] r by simp
  from Suc r have ih: "m' ! j = (if j < n \<and> sec ! j = l then l else m ! j)"
    by simp
  show ?case
    using ih len Suc.prems
    by (auto simp: reveal_Suc r nth_list_update less_Suc_eq)
qed

lemma found_reveal: "snd (reveal sec l n m) \<longleftrightarrow> (\<exists>j<n. sec ! j = l)"
proof (induction n)
  case 0
  then show ?case by (simp add: reveal_def)
next
  case (Suc n)
  then show ?case
    by (auto simp: reveal_Suc less_Suc_eq split: prod.splits)
qed

section \<open>Sending on a transport that does not fail\<close>

lemma send_all_None: "tx_room c = None \<Longrightarrow> send_all c buf = (0, c\<lparr>tx := tx c @ buf\<rparr>)"
  by (simp add: send_all_def)

lemma send_message_packet_None:
  assumes "tx_room c = None" and "length msg \<le> 255"
  shows "send_message_packet c msg = (0, c\<lparr>tx := tx c @ spec_message msg\<rparr>)"
proof (cases "msg = []")
  case True
  with assms show ?thesis
    by (simp add: send_message_packet_def spec_message_def send_all_None)
next
  case False
  with assms show ?thesis
    by (simp add: send_message_packet_def spec_message_def send_all_None Let_def)
qed

lemma map_nth_take: "n \<le> length xs \<Longrightarrow> map (\<lambda>i. xs ! i) [0..<n] = take n xs"
  by (simp add: list_eq_iff_nth_eq)

lemma send_game_state_None:
  assumes "tx_room c = None" and "session_ok s"
  shows "send_game_state c (masked s) (incorrect s) (word_len s) (num_incorrect s)
           = (0, c\<lparr>tx := tx c @ board s\<rparr>)"
proof -
  from assms(2) have wl: "0 < unat (word_len s)" "unat (word_len s) \<le> MAX_WORD_LEN"
    and ni: "unat (num_incorrect s) \<le> MAX_INCORRECT"
    and lm: "length (masked s) = MAX_WORD_LEN" and li: "length (incorrect s) = MAX_INCORRECT"
    by (simp_all add: session_ok_def)
  from wl(1) have nz: "word_len s \<noteq> 0"
    by (auto simp: unat_gt_0)
  have sum: "\<not> unat (word_len s) + unat (num_incorrect s) > MAX_WORD_LEN + MAX_WORD_LEN"
    using wl ni by (simp add: MAX_WORD_LEN_def MAX_INCORRECT_def)
  have m: "map (\<lambda>i. masked s ! i) [0..<unat (word_len s)] = masked_word s"
    using wl lm by (simp add: map_nth_take masked_word_def)
  have i: "map (\<lambda>j. incorrect s ! j) [0..<unat (num_incorrect s)] = incorrect_set s"
    using ni li by (simp add: map_nth_take incorrect_set_def)
  have lens: "length (masked_word s) = unat (word_len s)"
    "length (incorrect_set s) = unat (num_incorrect s)"
    using wl ni lm li by (simp_all add: masked_word_def incorrect_set_def)
  have "board s = [0, word_len s, num_incorrect s] @ masked_word s @ incorrect_set s"
    by (simp add: board_def spec_game_control_def lens)
  then show ?thesis
    using assms(1) nz wl(2) sum
    by (simp add: send_game_state_def m i send_all_None)
qed

lemma word_msg_spec: "length sec = n \<Longrightarrow> word_msg sec n = spec_reveal sec"
proof -
  assume "length sec = n"
  then have "map (\<lambda>i. [32, sec ! i]) [0..<n] = map (\<lambda>b. [32, b]) sec"
    by (simp add: list_eq_iff_nth_eq)
  then show ?thesis
    by (simp add: word_msg_def spec_reveal_def)
qed

lemma length_bytes: "length (bytes s) = length s"
  by (simp add: bytes_def)

lemma length_spec_reveal: "length (spec_reveal w) = 12 + 2 * length w"
  by (induction w) (simp_all add: spec_reveal_def length_bytes)

lemma send_final_None:
  assumes "tx_room c = None" and "session_ok s" and "length verdict \<le> 255"
  shows "send_final c s (bytes verdict) = c\<lparr>tx := tx c @ final_messages s verdict\<rparr>"
proof -
  have w: "word_msg (secret s) (unat (word_len s)) = spec_reveal (secret s)"
    using assms(2) by (simp add: word_msg_spec session_ok_def)
  have l1: "length (spec_reveal (secret s)) \<le> 255"
    using assms(2) by (simp add: length_spec_reveal session_ok_def MAX_WORD_LEN_def)
  have l2: "length (bytes verdict) \<le> 255"
    using assms(3) by (simp add: length_bytes)
  have l3: "length (bytes ''Game Over!'') \<le> 255"
    by (simp add: length_bytes)
  show ?thesis
    using assms(1) l1 l2 l3
    by (simp add: send_final_def w send_message_packet_None final_messages_def)
qed

section \<open>The state change of a guess\<close>

text \<open>
  Whether the letter counts as already guessed, and whether it occurs in the word,
  as the loops of \<open>handle_client\<close> find out.
\<close>

lemma already_iff:
  assumes "session_ok s"
  shows "(if scan (masked s) l 0 (unat (word_len s)) then True
          else scan (incorrect s) l 0 (unat (num_incorrect s)))
         \<longleftrightarrow> l \<in> set (masked_word s) \<or> l \<in> set (incorrect_set s)"
  using assms
  by (simp add: session_ok_def scan_set masked_word_def incorrect_set_def)

lemma apply_guess_already:
  assumes "session_ok s" and "l \<in> set (masked_word s) \<or> l \<in> set (incorrect_set s)"
  shows "apply_guess s l = s"
  using already_iff [OF assms(1), of l] assms(2)
  by (simp add: apply_guess_def Let_def)

lemma reveal_none:
  assumes "\<not> (\<exists>j<n. sec ! j = l)"
  shows "reveal sec l n m = (m, False)"
proof -
  have "fst (reveal sec l n m) = m"
    using assms by (auto simp: list_eq_iff_nth_eq length_reveal nth_reveal)
  moreover have "\<not> snd (reveal sec l n m)"
    using assms by (simp add: found_reveal)
  ultimately show ?thesis
    by (cases "reveal sec l n m") simp
qed

lemma apply_guess_hit:
  assumes "session_ok s" and "l \<notin> set (masked_word s)" and "l \<notin> set (incorrect_set s)"
    and "\<exists>j<unat (word_len s). secret s ! j = l"
  shows "apply_guess s l = s\<lparr>masked := fst (reveal (secret s) l (unat (word_len s)) (masked s))\<rparr>"
proof -
  obtain m' f where r: "reveal (secret s) l (unat (word_len s)) (masked s) = (m', f)"
    by (cases "reveal (secret s) l (unat (word_len s)) (masked s)") auto
  have "snd (reveal (secret s) l (unat (word_len s)) (masked s))"
    using assms(4) by (simp add: found_reveal)
  with r have f by simp
  then show ?thesis
    using already_iff [OF assms(1), of l] assms(2,3) r
    by (simp add: apply_guess_def Let_def)
qed

lemma apply_guess_miss:
  assumes "session_ok s" and "l \<notin> set (masked_word s)" and "l \<notin> set (incorrect_set s)"
    and "\<not> (\<exists>j<unat (word_len s). secret s ! j = l)"
  shows "apply_guess s l =
           (if unat (num_incorrect s) < MAX_INCORRECT
            then s\<lparr>incorrect := (incorrect s)[unat (num_incorrect s) := l],
                   num_incorrect := num_incorrect s + 1\<rparr>
            else s)"
  using already_iff [OF assms(1), of l] assms(2,3) reveal_none [OF assms(4)]
  by (simp add: apply_guess_def Let_def)

lemma unat_inc: "unat (x :: u8) < 8 \<Longrightarrow> unat (x + 1) = Suc (unat x)"
proof -
  assume "unat x < 8"
  then have "unat x + unat (1 :: u8) < 2 ^ LENGTH(8)" by simp
  then have "unat (x + 1) = unat x + unat (1 :: u8)"
    by (simp only: unat_add_lem)
  then show ?thesis by simp
qed

text \<open>The three cases of a guess, in the vocabulary of the specification.\<close>

lemma apply_guess_cases:
  assumes "session_ok s"
  shows "session_ok (apply_guess s l)
     \<and> secret (apply_guess s l) = secret s \<and> word_len (apply_guess s l) = word_len s
     \<and> length (masked_word (apply_guess s l)) = length (masked_word s)
     \<and> (\<forall>j<length (masked_word s).
          masked_word (apply_guess s l) ! j =
            (if l \<notin> set (masked_word s) \<and> l \<notin> set (incorrect_set s) \<and> secret s ! j = l
             then l else masked_word s ! j))
     \<and> incorrect_set (apply_guess s l) =
          (if l \<notin> set (masked_word s) \<and> l \<notin> set (incorrect_set s) \<and> l \<notin> set (secret s)
              \<and> length (incorrect_set s) < MAX_INCORRECT
           then incorrect_set s @ [l] else incorrect_set s)"
proof -
  from assms have ls: "length (secret s) = unat (word_len s)"
    and wl: "unat (word_len s) \<le> MAX_WORD_LEN"
    and ni: "unat (num_incorrect s) \<le> MAX_INCORRECT"
    and lm: "length (masked s) = MAX_WORD_LEN" and li: "length (incorrect s) = MAX_INCORRECT"
    by (simp_all add: session_ok_def)
  have lmw: "length (masked_word s) = unat (word_len s)"
    using wl lm by (simp add: masked_word_def)
  have lis: "length (incorrect_set s) = unat (num_incorrect s)"
    using ni li by (simp add: incorrect_set_def)
  have insec: "l \<in> set (secret s) \<longleftrightarrow> (\<exists>j<unat (word_len s). secret s ! j = l)"
    using ls by (auto simp: in_set_conv_nth)
  consider (already) "l \<in> set (masked_word s) \<or> l \<in> set (incorrect_set s)"
    | (hit) "l \<notin> set (masked_word s)" "l \<notin> set (incorrect_set s)" "l \<in> set (secret s)"
    | (miss) "l \<notin> set (masked_word s)" "l \<notin> set (incorrect_set s)" "l \<notin> set (secret s)"
    by blast
  then show ?thesis
  proof cases
    case already
    then have "apply_guess s l = s"
      by (rule apply_guess_already [OF assms])
    with already assms show ?thesis by auto
  next
    case hit
    define m' where "m' = fst (reveal (secret s) l (unat (word_len s)) (masked s))"
    have eq: "apply_guess s l = s\<lparr>masked := m'\<rparr>"
      using apply_guess_hit [OF assms hit(1,2)] hit(3) insec by (simp add: m'_def)
    have lm': "length m' = MAX_WORD_LEN"
      using lm by (simp add: m'_def length_reveal)
    have nth: "\<And>j. j < unat (word_len s) \<Longrightarrow> m' ! j = (if secret s ! j = l then l else masked s ! j)"
      using wl lm by (simp add: m'_def nth_reveal)
    show ?thesis
      using assms hit lm' wl lm nth
      by (auto simp: eq session_ok_def masked_word_def incorrect_set_def)
  next
    case miss
    have nosec: "\<not> (\<exists>j<unat (word_len s). secret s ! j = l)"
      using miss(3) insec by simp
    have nosec': "\<And>j. j < unat (word_len s) \<Longrightarrow> secret s ! j \<noteq> l"
      using nosec by blast
    show ?thesis
    proof (cases "unat (num_incorrect s) < MAX_INCORRECT")
      case False
      then have "apply_guess s l = s"
        using apply_guess_miss [OF assms miss(1,2) nosec] by simp
      with False miss assms lis lmw nosec' show ?thesis by auto
    next
      case True
      then have eq: "apply_guess s l =
          s\<lparr>incorrect := (incorrect s)[unat (num_incorrect s) := l],
            num_incorrect := num_incorrect s + 1\<rparr>"
        using apply_guess_miss [OF assms miss(1,2) nosec] by simp
      have u: "unat (num_incorrect s + 1) = Suc (unat (num_incorrect s))"
        using True by (simp add: unat_inc MAX_INCORRECT_def)
      have tk: "take (Suc (unat (num_incorrect s))) ((incorrect s)[unat (num_incorrect s) := l])
                  = take (unat (num_incorrect s)) (incorrect s) @ [l]"
        using True li by (simp add: take_Suc_conv_app_nth)
      show ?thesis
        using assms True miss lis lmw nosec' u tk
        by (auto simp: eq session_ok_def masked_word_def incorrect_set_def)
    qed
  qed
qed

section \<open>Malformed guess packets\<close>




section \<open>One round of the guess loop\<close>

lemma all_revealed_iff: "session_ok s \<Longrightarrow> all_revealed s \<longleftrightarrow> 95 \<notin> set (masked_word s)"
  by (simp add: all_revealed_def session_ok_def scan_set masked_word_def)

text \<open>A round changes the session by \<open>apply_guess\<close> or not at all.\<close>

lemma guess_iter_session:
  assumes "guess_iter s c = (st, s', c')"
  shows "s' = s \<or> (\<exists>l. s' = apply_guess s l)"
  using assms
  by (auto simp: guess_iter_def Let_def split: prod.splits if_splits)

lemma guess_iter_session_ok:
  assumes "session_ok s" and "guess_iter s c = (st, s', c')"
  shows "session_ok s'"
  using guess_iter_session [OF assms(2)] apply_guess_cases [OF assms(1)] assms(1)
  by auto

text \<open>A well-formed guess on a transport that does not fail.\<close>

lemma guess_iter_guess:
  assumes "session_ok s" and "tx_room c = None" and "rx c = 1 # l # rest"
  shows "guess_iter s c =
     (let s1 = apply_guess s (tolower l)
      in if all_revealed s1
         then (Won, s1, c\<lparr>rx := rest, tx := tx c @ final_messages s1 ''You Win!''\<rparr>)
         else if unat (num_incorrect s1) \<ge> MAX_INCORRECT
         then (Lost, s1, c\<lparr>rx := rest, tx := tx c @ final_messages s1 ''You Lose.''\<rparr>)
         else (Playing, s1, c\<lparr>rx := rest, tx := tx c @ board s1\<rparr>))"
proof -
  define s1 where "s1 = apply_guess s (tolower l)"
  have ok1: "session_ok s1"
    using apply_guess_cases [OF assms(1), of "tolower l"] by (simp add: s1_def)
  have room: "tx_room (c\<lparr>rx := rest\<rparr>) = None"
    using assms(2) by simp
  have win: "send_final (c\<lparr>rx := rest\<rparr>) s1 (bytes ''You Win!'')
               = c\<lparr>rx := rest, tx := tx c @ final_messages s1 ''You Win!''\<rparr>"
    using send_final_None [OF room ok1, of "''You Win!''"] by simp
  have lose: "send_final (c\<lparr>rx := rest\<rparr>) s1 (bytes ''You Lose.'')
               = c\<lparr>rx := rest, tx := tx c @ final_messages s1 ''You Lose.''\<rparr>"
    using send_final_None [OF room ok1, of "''You Lose.''"] by simp
  have brd: "send_game_state (c\<lparr>rx := rest\<rparr>) (masked s1) (incorrect s1) (word_len s1)
               (num_incorrect s1) = (0, c\<lparr>rx := rest, tx := tx c @ board s1\<rparr>)"
    using send_game_state_None [OF room ok1] by simp
  have "guess_iter s c =
     (if all_revealed s1 then (Won, s1, send_final (c\<lparr>rx := rest\<rparr>) s1 (bytes ''You Win!''))
      else if unat (num_incorrect s1) \<ge> MAX_INCORRECT
      then (Lost, s1, send_final (c\<lparr>rx := rest\<rparr>) s1 (bytes ''You Lose.''))
      else (case send_game_state (c\<lparr>rx := rest\<rparr>) (masked s1) (incorrect s1) (word_len s1)
                  (num_incorrect s1) of (r3, c3) \<Rightarrow>
              if r3 < 0 then (Closed, s1, c3) else (Playing, s1, c3)))"
    using assms(3)
    by (simp add: guess_iter_def recv1_def recv_all_def Let_def s1_def split: prod.splits)
  then show ?thesis
    by (simp add: win lose brd s1_def [symmetric] Let_def)
qed

text \<open>A round that goes on leaves a session in the Playing state.\<close>

lemma guess_iter_playing:
  assumes "playing s" and "guess_iter s c = (Playing, s', c')"
  shows "playing s'"
proof -
  from assms(1) have ok: "session_ok s" by (simp add: playing_def)
  have ok': "session_ok s'" by (rule guess_iter_session_ok [OF ok assms(2)])
  have "s' = s \<or> (\<not> all_revealed s' \<and> \<not> unat (num_incorrect s') \<ge> MAX_INCORRECT)"
    using assms(2)
    by (auto simp: guess_iter_def Let_def split: prod.splits if_splits)
  with assms(1) ok' show ?thesis
    by (auto simp: playing_def)
qed

lemma session_run_playing:
  assumes "session_run x r" and "playing (fst x)"
  shows "session_ok (fst (snd r)) \<and> (fst r = Playing \<longrightarrow> playing (fst (snd r)))"
  using assms
proof (induction rule: session_run.induct)
  case (start s c)
  then show ?case by (simp add: playing_def)
next
  case (round x s c r)
  then have p: "playing s" by simp
  obtain st s' c' where r: "r = (st, s', c')" by (cases r) auto
  with round.hyps(2) have g: "guess_iter s c = (st, s', c')" by simp
  have "session_ok s'"
    using guess_iter_session_ok [OF _ g] p by (simp add: playing_def)
  moreover have "st = Playing \<longrightarrow> playing s'"
    using guess_iter_playing [OF p] g by auto
  ultimately show ?case by (simp add: r)
qed

text \<open>The guess loop runs the rounds of \<open>session_run\<close>.\<close>

lemma guess_loop_run: "session_run (s, c) (guess_loop s c)"
proof -
  have "session_run x (Playing, s, c) \<Longrightarrow> session_run x (guess_loop s c)" for x
  proof (induction s c rule: guess_loop.induct)
    case (1 s c)
    obtain st s1 c1 where g: "guess_iter s c = (st, s1, c1)"
      by (cases "guess_iter s c") auto
    have r1: "session_run x (st, s1, c1)"
      using session_run.round [OF "1.prems" g] .
    show ?case
    proof (cases "st = Playing")
      case True
      with r1 have "session_run x (guess_loop s1 c1)"
        using "1.IH" [OF g [symmetric] refl True] by simp
      with g True show ?thesis
        by (simp add: guess_loop.simps [of s c])
    next
      case False
      with g r1 show ?thesis
        by (simp add: guess_loop.simps [of s c])
    qed
  qed
  then show ?thesis
    using session_run.start by blast
qed

section \<open>Revealed letters stay\<close>

lemma filter_length_mono:
  "list_all2 (\<lambda>a b. P b \<longrightarrow> P a) xs ys \<Longrightarrow> length (filter P ys) \<le> length (filter P xs)"
  by (induction rule: list_all2_induct) auto

lemma keeps_revealed_refl: "keeps_revealed s s"
  by (simp add: keeps_revealed_def)

lemma keeps_revealed_trans:
  "keeps_revealed a b \<Longrightarrow> keeps_revealed b c \<Longrightarrow> keeps_revealed a c"
  by (auto simp: keeps_revealed_def)

lemma apply_guess_keeps:
  assumes "session_ok s" and "consistent s"
  shows "keeps_revealed s (apply_guess s l) \<and> consistent (apply_guess s l)"
proof -
  define s' where "s' = apply_guess s l"
  define hit where "hit = (l \<notin> set (masked_word s) \<and> l \<notin> set (incorrect_set s))"
  from apply_guess_cases [OF assms(1), of l]
  have sec: "secret s' = secret s"
    and len: "length (masked_word s') = length (masked_word s)"
    and nth: "\<And>j. j < length (masked_word s) \<Longrightarrow>
          masked_word s' ! j = (if hit \<and> secret s ! j = l then l else masked_word s ! j)"
    by (simp_all add: s'_def hit_def)
  from assms(2) have ls: "length (masked_word s) = length (secret s)"
    and con: "\<And>j. j < length (masked_word s) \<Longrightarrow>
          masked_word s ! j = 95 \<or> masked_word s ! j = secret s ! j"
    by (auto simp: consistent_def list_all2_conv_all_nth)
  have old: "masked_word s ! j = 95"
    if "j < length (masked_word s)" "hit" "secret s ! j = l" for j
  proof (rule ccontr)
    assume "masked_word s ! j \<noteq> 95"
    with con [OF that(1)] that(3) have "masked_word s ! j = l" by simp
    with that(1) have "l \<in> set (masked_word s)" by (auto simp: in_set_conv_nth)
    with that(2) show False by (simp add: hit_def)
  qed
  have stay: "masked_word s' ! j = masked_word s ! j"
    if "j < length (masked_word s)" "masked_word s ! j \<noteq> 95" for j
    using nth [OF that(1)] old [OF that(1)] that(2) by auto
  have was: "masked_word s ! j = 95"
    if "j < length (masked_word s)" "masked_word s' ! j = 95" for j
    using nth [OF that(1)] old [OF that(1)] that(2) by (auto split: if_splits)
  have "list_all2 (\<lambda>a b. b = 95 \<longrightarrow> a = 95) (masked_word s) (masked_word s')"
    using len was by (simp add: list_all2_conv_all_nth)
  then have cnt: "placeholders s' \<le> placeholders s"
    unfolding placeholders_def by (rule filter_length_mono)
  have con': "consistent s'"
    using len ls sec nth con
    by (auto simp: consistent_def list_all2_conv_all_nth)
  show ?thesis
    using len stay cnt con' by (simp add: keeps_revealed_def s'_def)
qed

lemma guess_iter_keeps:
  assumes "session_ok s" and "consistent s" and "guess_iter s c = (st, s', c')"
  shows "session_ok s' \<and> consistent s' \<and> keeps_revealed s s'"
  using guess_iter_session [OF assms(3)] guess_iter_session_ok [OF assms(1,3)]
    apply_guess_keeps [OF assms(1,2)] assms(2) keeps_revealed_refl [of s]
  by auto

lemma session_run_keeps:
  assumes "session_run x r" and "session_ok (fst x)" and "consistent (fst x)"
  shows "session_ok (fst (snd r)) \<and> consistent (fst (snd r))
         \<and> keeps_revealed (fst x) (fst (snd r))"
  using assms
proof (induction rule: session_run.induct)
  case (start s c)
  then show ?case by (simp add: keeps_revealed_refl)
next
  case (round x s c r)
  obtain st s' c' where r: "r = (st, s', c')" by (cases r) auto
  from round have ih: "session_ok s" "consistent s" "keeps_revealed (fst x) s"
    by simp_all
  from round.hyps(2) r have g: "guess_iter s c = (st, s', c')" by simp
  from guess_iter_keeps [OF ih(1,2) g] keeps_revealed_trans [OF ih(3)]
  show ?case by (auto simp: r)
qed

text \<open>The session that \<open>handle_client\<close> starts on a word of the loaded list.\<close>

lemma fold_update_length: "length (fold (\<lambda>i m. m[i := v]) [0..<n] m) = length m"
  by (induction n) auto

lemma fold_update_nth:
  "j < length m \<Longrightarrow> fold (\<lambda>i m. m[i := v]) [0..<n] m ! j = (if j < n then v else m ! j)"
  by (induction n) (auto simp: less_Suc_eq fold_update_length nth_list_update)

lemma init_session_start:
  assumes "words \<noteq> []"
    and "\<forall>w\<in>set words. 0 < length w \<and> length w \<le> MAX_WORD_LEN"
    and "length masked0 = MAX_WORD_LEN" and "length incorrect0 = MAX_INCORRECT"
  shows "secret (init_session words rnd masked0 incorrect0) = words ! (rnd mod length words)
     \<and> masked_word (init_session words rnd masked0 incorrect0)
         = replicate (length (words ! (rnd mod length words))) 95
     \<and> incorrect_set (init_session words rnd masked0 incorrect0) = []
     \<and> playing (init_session words rnd masked0 incorrect0)
     \<and> consistent (init_session words rnd masked0 incorrect0)"
proof -
  define sec where "sec = words ! (rnd mod length words)"
  have "sec \<in> set words"
    using assms(1) by (simp add: sec_def)
  with assms(2) have l: "0 < length sec" "length sec \<le> MAX_WORD_LEN" by auto
  then have u: "unat (of_nat (length sec) :: u8) = length sec"
    by (simp add: unat_of_nat MAX_WORD_LEN_def)
  define s where "s = init_session words rnd masked0 incorrect0"
  have f: "secret s = sec" "word_len s = of_nat (length sec)" "incorrect s = incorrect0"
    "num_incorrect s = 0"
    "masked s = fold (\<lambda>i m. m[i := 95]) [0..<length sec] masked0"
    by (simp_all add: s_def init_session_def Let_def sec_def [symmetric] u)
  have mw: "masked_word s = replicate (length sec) 95"
  proof (rule nth_equalityI)
    show "length (masked_word s) = length (replicate (length sec) (95 :: u8))"
      using l assms(3) by (simp add: masked_word_def f u fold_update_length)
  next
    fix j
    assume "j < length (masked_word s)"
    then have "j < length sec"
      by (simp add: masked_word_def f u)
    then show "masked_word s ! j = replicate (length sec) 95 ! j"
      using l assms(3) by (simp add: masked_word_def f u fold_update_nth)
  qed
  have ok: "session_ok s"
    using l assms(3,4) by (simp add: session_ok_def f u fold_update_length)
  have "95 \<in> set (masked_word s)"
    using l by (simp add: mw)
  then have pl: "playing s"
    using ok by (simp add: playing_def all_revealed_iff f MAX_INCORRECT_def)
  have "consistent s"
    by (simp add: consistent_def mw f list_all2_conv_all_nth)
  with mw pl show ?thesis
    by (simp add: s_def [symmetric] f sec_def [symmetric] incorrect_set_def)
qed

text \<open>
  C1. From any session as \<open>handle_client\<close> keeps it, whatever bytes the client sends:
  every state the session passes through has each revealed cell of the earlier masked
  word unchanged, and no more placeholders.
\<close>

theorem masked_word_never_loses:
  assumes "session_ok s" and "consistent s" and "session_run (s, c) (st, s', c')"
  shows "keeps_revealed s s'"
  using session_run_keeps [OF assms(3)] assms(1,2) by simp

theorem masked_word_never_loses_witness:
  "session_ok \<lparr>secret = bytes ''cat'', word_len = 3, masked = (replicate 16 95)[0 := 99],
               incorrect = replicate 8 0, num_incorrect = 0\<rparr>
   \<and> consistent \<lparr>secret = bytes ''cat'', word_len = 3, masked = (replicate 16 95)[0 := 99],
               incorrect = replicate 8 0, num_incorrect = 0\<rparr>
   \<and> session_run
        (\<lparr>secret = bytes ''cat'', word_len = 3, masked = (replicate 16 95)[0 := 99],
          incorrect = replicate 8 0, num_incorrect = 0\<rparr>,
         \<lparr>rx = [1, 122, 1, 65], tx = [0, 3, 0, 99, 95, 95], tx_room = None\<rparr>)
        (Playing,
         \<lparr>secret = bytes ''cat'', word_len = 3, masked = (replicate 16 95)[0 := 99, 1 := 97],
          incorrect = (replicate 8 0)[0 := 122], num_incorrect = 1\<rparr>,
         \<lparr>rx = [],
          tx = [0, 3, 0, 99, 95, 95, 0, 3, 1, 99, 95, 95, 122, 0, 3, 1, 99, 97, 95, 122],
          tx_room = None\<rparr>)
   \<and> keeps_revealed
        \<lparr>secret = bytes ''cat'', word_len = 3, masked = (replicate 16 95)[0 := 99],
         incorrect = replicate 8 0, num_incorrect = 0\<rparr>
        \<lparr>secret = bytes ''cat'', word_len = 3, masked = (replicate 16 95)[0 := 99, 1 := 97],
         incorrect = (replicate 8 0)[0 := 122], num_incorrect = 1\<rparr>
   \<and> masked_word \<lparr>secret = bytes ''cat'', word_len = 3, masked = (replicate 16 95)[0 := 99],
         incorrect = replicate 8 0, num_incorrect = 0\<rparr> = bytes ''c__''
   \<and> masked_word
        \<lparr>secret = bytes ''cat'', word_len = 3, masked = (replicate 16 95)[0 := 99, 1 := 97],
         incorrect = (replicate 8 0)[0 := 122], num_incorrect = 1\<rparr> ! 0 = 99
   \<and> placeholders
        \<lparr>secret = bytes ''cat'', word_len = 3, masked = (replicate 16 95)[0 := 99, 1 := 97],
         incorrect = (replicate 8 0)[0 := 122], num_incorrect = 1\<rparr> \<le> 2"
proof -
  let ?s = "\<lparr>secret = bytes ''cat'', word_len = 3, masked = (replicate 16 95)[0 := 99],
             incorrect = replicate 8 0, num_incorrect = 0\<rparr>"
  let ?c = "\<lparr>rx = [1, 122, 1, 65], tx = [0, 3, 0, 99, 95, 95], tx_room = None\<rparr>"
  let ?s1 = "\<lparr>secret = bytes ''cat'', word_len = 3, masked = (replicate 16 95)[0 := 99],
              incorrect = (replicate 8 0)[0 := 122], num_incorrect = 1\<rparr>"
  let ?c1 = "\<lparr>rx = [1, 65], tx = [0, 3, 0, 99, 95, 95, 0, 3, 1, 99, 95, 95, 122],
              tx_room = None\<rparr>"
  let ?s2 = "\<lparr>secret = bytes ''cat'', word_len = 3,
              masked = (replicate 16 95)[0 := 99, 1 := 97],
              incorrect = (replicate 8 0)[0 := 122], num_incorrect = 1\<rparr>"
  let ?c2 = "\<lparr>rx = [],
              tx = [0, 3, 0, 99, 95, 95, 0, 3, 1, 99, 95, 95, 122, 0, 3, 1, 99, 97, 95, 122],
              tx_room = None\<rparr>"
  have ok: "session_ok ?s" by code_simp
  have con: "consistent ?s" by code_simp
  have g1: "guess_iter ?s ?c = (Playing, ?s1, ?c1)" by code_simp
  have g2: "guess_iter ?s1 ?c1 = (Playing, ?s2, ?c2)" by code_simp
  have run: "session_run (?s, ?c) (Playing, ?s2, ?c2)"
    by (rule session_run.round [OF session_run.round [OF session_run.start g1] g2])
  have keep: "keeps_revealed ?s ?s2"
    by (rule masked_word_never_loses [OF ok con run])
  have mw: "masked_word ?s = bytes ''c__''" by code_simp
  then have m0: "masked_word ?s ! 0 = 99" "length (masked_word ?s) = 3"
    by (simp_all add: bytes_def)
  have ph: "placeholders ?s = 2" by code_simp
  from keep m0 have kept: "masked_word ?s2 ! 0 = 99"
    by (simp add: keeps_revealed_def)
  from keep ph have fewer: "placeholders ?s2 \<le> 2"
    by (simp add: keeps_revealed_def)
  from ok con run keep mw kept fewer show ?thesis
    by (intro conjI)
qed

section \<open>The cap on incorrect guesses\<close>

lemma length_incorrect_set: "session_ok s \<Longrightarrow> length (incorrect_set s) = unat (num_incorrect s)"
  by (simp add: session_ok_def incorrect_set_def)

text \<open>A round ends as Lost only past the test \<open>num_incorrect >= MAX_INCORRECT\<close>.\<close>

lemma guess_iter_Lost:
  assumes "guess_iter s c = (Lost, s', c')"
  shows "unat (num_incorrect s') \<ge> MAX_INCORRECT \<and> \<not> all_revealed s'"
  using assms
  by (auto simp: guess_iter_def Let_def split: prod.splits if_splits)

lemma session_run_Lost:
  assumes "session_run x (Lost, s, c)"
  shows "unat (num_incorrect s) \<ge> MAX_INCORRECT \<and> \<not> all_revealed s"
  using assms
proof (cases rule: session_run.cases)
  case (round s1 c1)
  then show ?thesis by (simp add: guess_iter_Lost)
qed

text \<open>A guess adds at most one letter to the IncorrectSet.\<close>

lemma apply_guess_counter:
  assumes "session_ok s"
  shows "unat (num_incorrect (apply_guess s l)) \<le> Suc (unat (num_incorrect s))
       \<and> unat (num_incorrect s) \<le> unat (num_incorrect (apply_guess s l))"
proof -
  from apply_guess_cases [OF assms, of l]
  have ok': "session_ok (apply_guess s l)"
    and inc: "incorrect_set (apply_guess s l) =
          (if l \<notin> set (masked_word s) \<and> l \<notin> set (incorrect_set s) \<and> l \<notin> set (secret s)
              \<and> length (incorrect_set s) < MAX_INCORRECT
           then incorrect_set s @ [l] else incorrect_set s)"
    by simp_all
  have "length (incorrect_set (apply_guess s l)) \<le> Suc (length (incorrect_set s))
      \<and> length (incorrect_set s) \<le> length (incorrect_set (apply_guess s l))"
    by (simp add: inc)
  then show ?thesis
    by (simp add: length_incorrect_set [OF assms] length_incorrect_set [OF ok'])
qed

text \<open>
  C3. In every state a session passes through, the counter \<open>num_incorrect\<close>, which is
  the size of the IncorrectSet, is at most \<open>MAX_INCORRECT\<close> = 8: below 8 at the head of
  the guess loop, and 8 with a placeholder left in the state Lost. A guess raises the
  counter by one at most. When a guess brings it to the cap and a placeholder is left,
  that round sends the reveal message, "You Lose." and "Game Over!" and ends the loop
  with the status Lost; the bytes after the guess stay unread.
\<close>

theorem incorrect_set_capped:
  assumes "playing s0" and "session_run (s0, c0) (st, s, c)"
  shows "unat (num_incorrect s) \<le> MAX_INCORRECT
     \<and> length (incorrect_set s) = unat (num_incorrect s)
     \<and> length (incorrect_set s) \<le> MAX_INCORRECT
     \<and> (st = Playing \<longrightarrow> unat (num_incorrect s) < MAX_INCORRECT)
     \<and> (st = Playing \<longrightarrow> length (incorrect_set s) < MAX_INCORRECT)
     \<and> (st = Lost \<longrightarrow> unat (num_incorrect s) = MAX_INCORRECT \<and> 95 \<in> set (masked_word s))
     \<and> (\<forall>l. unat (num_incorrect (apply_guess s l)) \<le> Suc (unat (num_incorrect s)))
     \<and> (\<forall>l rest s'.
          st = Playing \<longrightarrow> tx_room c = None \<longrightarrow> rx c = 1 # l # rest \<longrightarrow>
          s' = apply_guess s (tolower l) \<longrightarrow>
          unat (num_incorrect s') \<ge> MAX_INCORRECT \<longrightarrow> 95 \<in> set (masked_word s') \<longrightarrow>
            unat (num_incorrect s') = MAX_INCORRECT
            \<and> guess_iter s c
              = (Lost, s', c\<lparr>rx := rest, tx := tx c @ final_messages s' ''You Lose.''\<rparr>)
            \<and> guess_loop s c = guess_iter s c)"
proof -
  from session_run_playing [OF assms(2)] assms(1)
  have ok: "session_ok s" and pl: "st = Playing \<longrightarrow> playing s"
    by simp_all
  have a: "unat (num_incorrect s) \<le> MAX_INCORRECT"
    using ok by (simp add: session_ok_def)
  have a': "length (incorrect_set s) = unat (num_incorrect s)"
    by (rule length_incorrect_set [OF ok])
  have b: "st = Playing \<longrightarrow> unat (num_incorrect s) < MAX_INCORRECT"
    using pl by (auto simp: playing_def)
  have lost: "st = Lost \<longrightarrow> unat (num_incorrect s) = MAX_INCORRECT \<and> 95 \<in> set (masked_word s)"
  proof
    assume "st = Lost"
    with assms(2) have "session_run (s0, c0) (Lost, s, c)" by simp
    from session_run_Lost [OF this] a ok
    show "unat (num_incorrect s) = MAX_INCORRECT \<and> 95 \<in> set (masked_word s)"
      by (simp add: all_revealed_iff)
  qed
  have step: "unat (num_incorrect (apply_guess s l)) \<le> Suc (unat (num_incorrect s))" for l
    using apply_guess_counter [OF ok, of l] by simp
  have c: "unat (num_incorrect s') = MAX_INCORRECT
            \<and> guess_iter s c
              = (Lost, s', c\<lparr>rx := rest, tx := tx c @ final_messages s' ''You Lose.''\<rparr>)
            \<and> guess_loop s c = guess_iter s c"
    if h: "tx_room c = None" "rx c = 1 # l # rest" "s' = apply_guess s (tolower l)"
      "unat (num_incorrect s') \<ge> MAX_INCORRECT" "95 \<in> set (masked_word s')"
    for l rest s'
  proof -
    have ok': "session_ok s'"
      using apply_guess_cases [OF ok, of "tolower l"] h(3) by simp
    then have eq: "unat (num_incorrect s') = MAX_INCORRECT"
      using h(4) by (simp add: session_ok_def)
    have nw: "\<not> all_revealed s'"
      using h(5) ok' by (simp add: all_revealed_iff)
    have it: "guess_iter s c
        = (Lost, s', c\<lparr>rx := rest, tx := tx c @ final_messages s' ''You Lose.''\<rparr>)"
      using guess_iter_guess [OF ok h(1,2)] nw h(4) h(3) by (simp add: Let_def)
    then show ?thesis
      using eq by (simp add: guess_loop.simps [of s c])
  qed
  have a2: "length (incorrect_set s) \<le> MAX_INCORRECT"
    using a a' by simp
  have b2: "st = Playing \<longrightarrow> length (incorrect_set s) < MAX_INCORRECT"
    using b a' by simp
  have step': "\<forall>l. unat (num_incorrect (apply_guess s l)) \<le> Suc (unat (num_incorrect s))"
    using step by blast
  have c': "\<forall>l rest s'.
          st = Playing \<longrightarrow> tx_room c = None \<longrightarrow> rx c = 1 # l # rest \<longrightarrow>
          s' = apply_guess s (tolower l) \<longrightarrow>
          unat (num_incorrect s') \<ge> MAX_INCORRECT \<longrightarrow> 95 \<in> set (masked_word s') \<longrightarrow>
            unat (num_incorrect s') = MAX_INCORRECT
            \<and> guess_iter s c
              = (Lost, s', c\<lparr>rx := rest, tx := tx c @ final_messages s' ''You Lose.''\<rparr>)
            \<and> guess_loop s c = guess_iter s c"
    using c by blast
  show ?thesis
    using a a' a2 b b2 lost step' c' by (intro conjI)
qed

theorem incorrect_set_capped_witness:
  "playing \<lparr>secret = bytes ''cat'', word_len = 3, masked = replicate 16 95,
            incorrect = bytes ''bdefghi'' @ [0], num_incorrect = 7\<rparr>
   \<and> session_run
        (\<lparr>secret = bytes ''cat'', word_len = 3, masked = replicate 16 95,
          incorrect = bytes ''bdefghi'' @ [0], num_incorrect = 7\<rparr>,
         \<lparr>rx = [1, 106, 1, 99], tx = [], tx_room = None\<rparr>)
        (Lost,
         \<lparr>secret = bytes ''cat'', word_len = 3, masked = replicate 16 95,
          incorrect = bytes ''bdefghij'', num_incorrect = 8\<rparr>,
         \<lparr>rx = [1, 99],
          tx = spec_message (bytes ''The word was c a t'') @ spec_message (bytes ''You Lose.'')
               @ spec_message (bytes ''Game Over!''),
          tx_room = None\<rparr>)
   \<and> unat (num_incorrect \<lparr>secret = bytes ''cat'', word_len = 3, masked = replicate 16 95,
            incorrect = bytes ''bdefghi'' @ [0], num_incorrect = 7\<rparr>) < MAX_INCORRECT
   \<and> unat (num_incorrect \<lparr>secret = bytes ''cat'', word_len = 3, masked = replicate 16 95,
            incorrect = bytes ''bdefghij'', num_incorrect = 8\<rparr>) = MAX_INCORRECT
   \<and> length (incorrect_set \<lparr>secret = bytes ''cat'', word_len = 3, masked = replicate 16 95,
            incorrect = bytes ''bdefghij'', num_incorrect = 8\<rparr>) = 8
   \<and> guess_loop
        \<lparr>secret = bytes ''cat'', word_len = 3, masked = replicate 16 95,
         incorrect = bytes ''bdefghi'' @ [0], num_incorrect = 7\<rparr>
        \<lparr>rx = [1, 106, 1, 99], tx = [], tx_room = None\<rparr>
      = (Lost,
         \<lparr>secret = bytes ''cat'', word_len = 3, masked = replicate 16 95,
          incorrect = bytes ''bdefghij'', num_incorrect = 8\<rparr>,
         \<lparr>rx = [1, 99],
          tx = spec_message (bytes ''The word was c a t'') @ spec_message (bytes ''You Lose.'')
               @ spec_message (bytes ''Game Over!''),
          tx_room = None\<rparr>)"
proof -
  let ?s = "\<lparr>secret = bytes ''cat'', word_len = 3, masked = replicate 16 95,
             incorrect = bytes ''bdefghi'' @ [0], num_incorrect = 7\<rparr>"
  let ?c = "\<lparr>rx = [1, 106, 1, 99], tx = [], tx_room = None\<rparr>"
  let ?s' = "\<lparr>secret = bytes ''cat'', word_len = 3, masked = replicate 16 95,
              incorrect = bytes ''bdefghij'', num_incorrect = 8\<rparr>"
  let ?c' = "\<lparr>rx = [1, 99],
              tx = spec_message (bytes ''The word was c a t'') @ spec_message (bytes ''You Lose.'')
                   @ spec_message (bytes ''Game Over!''),
              tx_room = None\<rparr>"
  have pl: "playing ?s" by code_simp
  have run0: "session_run (?s, ?c) (Playing, ?s, ?c)"
    by (rule session_run.start)
  have g: "guess_iter ?s ?c = (Lost, ?s', ?c')" by code_simp
  have run1: "session_run (?s, ?c) (Lost, ?s', ?c')"
    by (rule session_run.round [OF run0 g])
  have ap: "?s' = apply_guess ?s (tolower 106)" by code_simp
  have cap: "unat (num_incorrect ?s') \<ge> MAX_INCORRECT" by code_simp
  have ph: "95 \<in> set (masked_word ?s')" by code_simp
  have fm: "final_messages ?s' ''You Lose.''
              = spec_message (bytes ''The word was c a t'') @ spec_message (bytes ''You Lose.'')
                @ spec_message (bytes ''Game Over!'')"
    by code_simp
  note t0 = incorrect_set_capped [OF pl run0]
  note t1 = incorrect_set_capped [OF pl run1]
  have lt: "unat (num_incorrect ?s) < MAX_INCORRECT"
    using t0 by blast
  have eq: "unat (num_incorrect ?s') = MAX_INCORRECT"
    using t1 by blast
  have "length (incorrect_set ?s') = unat (num_incorrect ?s')"
    using t1 by blast
  with eq have len: "length (incorrect_set ?s') = 8"
    by (simp add: MAX_INCORRECT_def)
  have "\<forall>l rest s'.
          Playing = Playing \<longrightarrow> tx_room ?c = None \<longrightarrow> rx ?c = 1 # l # rest \<longrightarrow>
          s' = apply_guess ?s (tolower l) \<longrightarrow>
          unat (num_incorrect s') \<ge> MAX_INCORRECT \<longrightarrow> 95 \<in> set (masked_word s') \<longrightarrow>
            unat (num_incorrect s') = MAX_INCORRECT
            \<and> guess_iter ?s ?c
              = (Lost, s', ?c\<lparr>rx := rest, tx := tx ?c @ final_messages s' ''You Lose.''\<rparr>)
            \<and> guess_loop ?s ?c = guess_iter ?s ?c"
    using t0 by blast
  then have "guess_loop ?s ?c = guess_iter ?s ?c"
    using ap cap ph by (elim allE [where x = 106] allE [where x = "[1, 99]"] allE [where x = ?s']) simp
  with g have gl: "guess_loop ?s ?c = (Lost, ?s', ?c')" by simp
  from pl run1 lt eq len gl show ?thesis
    by (intro conjI)
qed

section \<open>Guesses that change nothing\<close>

lemma drain_only_rx:
  assumes "n < 256"
  shows "tx (drain c n) = tx c \<and> tx_room (drain c n) = tx_room c"
proof (cases "n > 0")
  case False
  then show ?thesis by (simp add: drain.simps [of c 0])
next
  case True
  with assms show ?thesis
    by (simp add: drain.simps [of c n] drain.simps [of _ 0] recv_all_def)
qed

text \<open>
  A round that goes on, on a transport that does not fail, has sent nothing and kept
  the session (a drained packet), or has sent the board of the session it leaves.
\<close>

lemma guess_iter_Playing_tx:
  assumes "session_ok s" and "tx_room c = None" and "guess_iter s c = (Playing, s', c')"
  shows "tx_room c' = None \<and> ((s' = s \<and> tx c' = tx c) \<or> tx c' = tx c @ board s')"
proof (cases "rx c")
  case Nil
  with assms(3) show ?thesis by (simp add: guess_iter_def recv1_def)
next
  case (Cons b r)
  show ?thesis
  proof (cases "b = 1")
    case False
    have "unat b < 2 ^ LENGTH(8)" by (rule unsigned_less)
    then have lt: "unat b < 256" by simp
    from assms(3) Cons False have "s' = s" "c' = drain (c\<lparr>rx := r\<rparr>) (unat b)"
      by (simp_all add: guess_iter_def recv1_def)
    with drain_only_rx [OF lt, of "c\<lparr>rx := r\<rparr>"] assms(2) show ?thesis by simp
  next
    case True
    show ?thesis
    proof (cases r)
      case Nil
      with assms(3) Cons True show ?thesis
        by (simp add: guess_iter_def recv1_def recv_all_def)
    next
      case (Cons l rest)
      with \<open>rx c = b # r\<close> True have rx: "rx c = 1 # l # rest" by simp
      from guess_iter_guess [OF assms(1,2) rx] assms(3) assms(2) show ?thesis
        by (auto simp: Let_def split: if_splits)
    qed
  qed
qed

lemma session_run_board:
  assumes "session_run x r" and "playing (fst x)" and "tx_room (snd x) = None"
    and "\<exists>pre. tx (snd x) = pre @ board (fst x)"
  shows "fst r = Playing \<longrightarrow>
           tx_room (snd (snd r)) = None \<and> (\<exists>pre. tx (snd (snd r)) = pre @ board (fst (snd r)))"
  using assms
proof (induction rule: session_run.induct)
  case (start s c)
  then show ?case by simp
next
  case (round x s c r)
  show ?case
  proof
    assume pr: "fst r = Playing"
    then obtain s' c' where r: "r = (Playing, s', c')" by (cases r) auto
    with round.hyps(2) have g: "guess_iter s c = (Playing, s', c')" by simp
    from round have ih: "tx_room c = None" "\<exists>pre. tx c = pre @ board s" by simp_all
    from session_run_playing [OF round.hyps(1) round.prems(1)] have ok: "session_ok s" by simp
    from guess_iter_Playing_tx [OF ok ih(1) g] ih(2) show
      "tx_room (snd (snd r)) = None \<and> (\<exists>pre. tx (snd (snd r)) = pre @ board (fst (snd r)))"
      by (auto simp: r)
  qed
qed

text \<open>
  C2. A session that entered the guess loop after its board was sent, on a transport
  that does not fail, in the Playing state: the last bytes sent are the board of the
  session, and a guess of a letter that a revealed cell of the masked word or the
  IncorrectSet holds leaves the session unchanged and sends that board again.
\<close>

theorem repeated_guess_idempotent:
  assumes "playing s0" and "tx_room c0 = None" and "\<exists>pre. tx c0 = pre @ board s0"
    and "session_run (s0, c0) (Playing, s, c)"
    and "rx c = 1 # l # rest"
    and "tolower l \<in> set (filter (\<lambda>b. b \<noteq> 95) (masked_word s))
         \<or> tolower l \<in> set (incorrect_set s)"
  shows "(\<exists>pre. tx c = pre @ board s)
       \<and> guess_iter s c = (Playing, s, c\<lparr>rx := rest, tx := tx c @ board s\<rparr>)"
proof -
  from session_run_playing [OF assms(4)] assms(1) have pl: "playing s" by simp
  then have ok: "session_ok s" by (simp add: playing_def)
  from session_run_board [OF assms(4)] assms(1,2,3)
  have room: "tx_room c = None" and last: "\<exists>pre. tx c = pre @ board s"
    by simp_all
  from assms(6) have "tolower l \<in> set (masked_word s) \<or> tolower l \<in> set (incorrect_set s)"
    by auto
  then have same: "apply_guess s (tolower l) = s"
    by (rule apply_guess_already [OF ok])
  from pl have "\<not> all_revealed s" "\<not> unat (num_incorrect s) \<ge> MAX_INCORRECT"
    by (simp_all add: playing_def)
  with guess_iter_guess [OF ok room assms(5)] same last show ?thesis
    by (simp add: Let_def)
qed

theorem repeated_guess_idempotent_witness:
  "playing \<lparr>secret = bytes ''cat'', word_len = 3, masked = replicate 16 95,
            incorrect = replicate 8 0, num_incorrect = 0\<rparr>
   \<and> session_run
        (\<lparr>secret = bytes ''cat'', word_len = 3, masked = replicate 16 95,
          incorrect = replicate 8 0, num_incorrect = 0\<rparr>,
         \<lparr>rx = [1, 99, 1, 67], tx = [0, 3, 0, 95, 95, 95], tx_room = None\<rparr>)
        (Playing,
         \<lparr>secret = bytes ''cat'', word_len = 3, masked = (replicate 16 95)[0 := 99],
          incorrect = replicate 8 0, num_incorrect = 0\<rparr>,
         \<lparr>rx = [1, 67], tx = [0, 3, 0, 95, 95, 95, 0, 3, 0, 99, 95, 95], tx_room = None\<rparr>)
   \<and> tolower 67 \<in> set (filter (\<lambda>b. b \<noteq> 95) (masked_word
         \<lparr>secret = bytes ''cat'', word_len = 3, masked = (replicate 16 95)[0 := 99],
          incorrect = replicate 8 0, num_incorrect = 0\<rparr>))
   \<and> guess_iter
         \<lparr>secret = bytes ''cat'', word_len = 3, masked = (replicate 16 95)[0 := 99],
          incorrect = replicate 8 0, num_incorrect = 0\<rparr>
         \<lparr>rx = [1, 67], tx = [0, 3, 0, 95, 95, 95, 0, 3, 0, 99, 95, 95], tx_room = None\<rparr>
       = (Playing,
          \<lparr>secret = bytes ''cat'', word_len = 3, masked = (replicate 16 95)[0 := 99],
           incorrect = replicate 8 0, num_incorrect = 0\<rparr>,
          \<lparr>rx = [], tx = [0, 3, 0, 95, 95, 95, 0, 3, 0, 99, 95, 95, 0, 3, 0, 99, 95, 95],
           tx_room = None\<rparr>)"
proof -
  let ?s0 = "\<lparr>secret = bytes ''cat'', word_len = 3, masked = replicate 16 95,
              incorrect = replicate 8 0, num_incorrect = 0\<rparr>"
  let ?c0 = "\<lparr>rx = [1, 99, 1, 67], tx = [0, 3, 0, 95, 95, 95], tx_room = None\<rparr>"
  let ?s1 = "\<lparr>secret = bytes ''cat'', word_len = 3, masked = (replicate 16 95)[0 := 99],
              incorrect = replicate 8 0, num_incorrect = 0\<rparr>"
  let ?c1 = "\<lparr>rx = [1, 67], tx = [0, 3, 0, 95, 95, 95, 0, 3, 0, 99, 95, 95], tx_room = None\<rparr>"
  have pl: "playing ?s0" by code_simp
  have room: "tx_room ?c0 = None" by simp
  have "tx ?c0 = [] @ board ?s0" by code_simp
  then have last: "\<exists>pre. tx ?c0 = pre @ board ?s0" by (rule exI)
  have g: "guess_iter ?s0 ?c0 = (Playing, ?s1, ?c1)" by code_simp
  have run: "session_run (?s0, ?c0) (Playing, ?s1, ?c1)"
    using session_run.round [OF session_run.start g] .
  have rx: "rx ?c1 = 1 # 67 # []" by simp
  have hit: "tolower 67 \<in> set (filter (\<lambda>b. b \<noteq> 95) (masked_word ?s1))" by code_simp
  then have old: "tolower 67 \<in> set (filter (\<lambda>b. b \<noteq> 95) (masked_word ?s1))
                  \<or> tolower 67 \<in> set (incorrect_set ?s1)" ..
  have b1: "board ?s1 = [0, 3, 0, 99, 95, 95]" by code_simp
  from repeated_guess_idempotent [OF pl room last run rx old]
  have "guess_iter ?s1 ?c1 = (Playing, ?s1, ?c1\<lparr>rx := [], tx := tx ?c1 @ board ?s1\<rparr>)"
    by simp
  then have res: "guess_iter ?s1 ?c1
      = (Playing, ?s1,
         \<lparr>rx = [], tx = [0, 3, 0, 95, 95, 95, 0, 3, 0, 99, 95, 95, 0, 3, 0, 99, 95, 95],
          tx_room = None\<rparr>)"
    by (simp add: b1)
  from pl run hit res show ?thesis
    by blast
qed

text \<open>No round puts the placeholder byte into the IncorrectSet.\<close>

lemma guess_iter_no_placeholder:
  assumes "playing s" and "95 \<notin> set (incorrect_set s)" and "guess_iter s c = (st, s', c')"
  shows "95 \<notin> set (incorrect_set s')"
proof -
  from assms(1) have ok: "session_ok s" and nw: "\<not> all_revealed s"
    by (simp_all add: playing_def)
  from nw ok have ph: "95 \<in> set (masked_word s)"
    by (simp add: all_revealed_iff)
  from guess_iter_session [OF assms(3)] show ?thesis
  proof
    assume "s' = s"
    with assms(2) show ?thesis by simp
  next
    assume "\<exists>l. s' = apply_guess s l"
    then obtain l where s': "s' = apply_guess s l" ..
    from apply_guess_cases [OF ok, of l]
    have "incorrect_set s' =
          (if l \<notin> set (masked_word s) \<and> l \<notin> set (incorrect_set s) \<and> l \<notin> set (secret s)
              \<and> length (incorrect_set s) < MAX_INCORRECT
           then incorrect_set s @ [l] else incorrect_set s)"
      by (simp add: s')
    with ph assms(2) show ?thesis
      by (auto split: if_splits)
  qed
qed

lemma session_run_no_placeholder:
  assumes "session_run x r" and "playing (fst x)" and "95 \<notin> set (incorrect_set (fst x))"
  shows "95 \<notin> set (incorrect_set (fst (snd r)))"
  using assms
proof (induction rule: session_run.induct)
  case (start s c)
  then show ?case by simp
next
  case (round x s c r)
  obtain st s' c' where r: "r = (st, s', c')" by (cases r) auto
  from session_run_playing [OF round.hyps(1) round.prems(1)] have pl: "playing s" by simp
  from round have ih: "95 \<notin> set (incorrect_set s)" by simp
  from round.hyps(2) r have g: "guess_iter s c = (st, s', c')" by simp
  from guess_iter_no_placeholder [OF pl ih g] show ?case by (simp add: r)
qed

text \<open>
  C10. In the Playing state a placeholder is left in the masked word, so the search
  for the guessed byte \<open>_\<close> (95, which \<open>tolower\<close> keeps) in \<open>masked\<close> succeeds: the guess
  counts as already made, the session is unchanged and the board is sent again, as it
  was sent last. The byte is not in the IncorrectSet and does not enter it in any later
  state of the session.
\<close>

theorem underscore_guess_already_guessed:
  assumes "playing s0" and "tx_room c0 = None" and "\<exists>pre. tx c0 = pre @ board s0"
    and "95 \<notin> set (incorrect_set s0)"
    and "session_run (s0, c0) (Playing, s, c)"
    and "rx c = 1 # 95 # rest"
  shows "scan (masked s) (tolower 95) 0 (unat (word_len s))
       \<and> apply_guess s (tolower 95) = s
       \<and> (\<exists>pre. tx c = pre @ board s)
       \<and> guess_iter s c = (Playing, s, c\<lparr>rx := rest, tx := tx c @ board s\<rparr>)
       \<and> 95 \<notin> set (incorrect_set s)
       \<and> (\<forall>st' s' c'. session_run (s, c) (st', s', c') \<longrightarrow> 95 \<notin> set (incorrect_set s'))"
proof -
  from session_run_playing [OF assms(5)] assms(1) have pl: "playing s" by simp
  then have ok: "session_ok s" by (simp add: playing_def)
  from session_run_board [OF assms(5)] assms(1,2,3)
  have room: "tx_room c = None" and last: "\<exists>pre. tx c = pre @ board s"
    by simp_all
  have tl: "tolower 95 = 95" by (simp add: tolower_def)
  from pl have nw: "\<not> all_revealed s" and cap: "\<not> unat (num_incorrect s) \<ge> MAX_INCORRECT"
    by (simp_all add: playing_def)
  from nw have sc: "scan (masked s) 95 0 (unat (word_len s))"
    by (simp add: all_revealed_def)
  from nw ok have "95 \<in> set (masked_word s)"
    by (simp add: all_revealed_iff)
  then have same: "apply_guess s 95 = s"
    using apply_guess_already [OF ok, of 95] by simp
  from session_run_no_placeholder [OF assms(5)] assms(1,4)
  have no: "95 \<notin> set (incorrect_set s)" by simp
  have later: "95 \<notin> set (incorrect_set s')" if "session_run (s, c) (st', s', c')" for st' s' c'
    using session_run_no_placeholder [OF that] pl no by simp
  from guess_iter_guess [OF ok room assms(6)] same nw cap sc last no later show ?thesis
    by (simp add: Let_def tl)
qed

theorem underscore_guess_already_guessed_witness:
  "playing \<lparr>secret = bytes ''cat'', word_len = 3, masked = (replicate 16 95)[0 := 99],
            incorrect = replicate 8 0, num_incorrect = 0\<rparr>
   \<and> guess_iter
         \<lparr>secret = bytes ''cat'', word_len = 3, masked = (replicate 16 95)[0 := 99],
          incorrect = replicate 8 0, num_incorrect = 0\<rparr>
         \<lparr>rx = [1, 95, 1, 97], tx = [0, 3, 0, 99, 95, 95], tx_room = None\<rparr>
       = (Playing,
          \<lparr>secret = bytes ''cat'', word_len = 3, masked = (replicate 16 95)[0 := 99],
           incorrect = replicate 8 0, num_incorrect = 0\<rparr>,
          \<lparr>rx = [1, 97], tx = [0, 3, 0, 99, 95, 95, 0, 3, 0, 99, 95, 95], tx_room = None\<rparr>)"
proof -
  let ?s = "\<lparr>secret = bytes ''cat'', word_len = 3, masked = (replicate 16 95)[0 := 99],
             incorrect = replicate 8 0, num_incorrect = 0\<rparr>"
  let ?c = "\<lparr>rx = [1, 95, 1, 97], tx = [0, 3, 0, 99, 95, 95], tx_room = None\<rparr>"
  have pl: "playing ?s" by code_simp
  have room: "tx_room ?c = None" by simp
  have b: "board ?s = [0, 3, 0, 99, 95, 95]" by code_simp
  then have "tx ?c = [] @ board ?s" by simp
  then have last: "\<exists>pre. tx ?c = pre @ board ?s" by (rule exI)
  have run: "session_run (?s, ?c) (Playing, ?s, ?c)"
    by (rule session_run.start)
  have rx: "rx ?c = 1 # 95 # [1, 97]" by simp
  have no: "95 \<notin> set (incorrect_set ?s)" by code_simp
  from underscore_guess_already_guessed [OF pl room last no run rx]
  have "guess_iter ?s ?c = (Playing, ?s, ?c\<lparr>rx := [1, 97], tx := tx ?c @ board ?s\<rparr>)"
    by simp
  then have res: "guess_iter ?s ?c
      = (Playing, ?s,
         \<lparr>rx = [1, 97], tx = [0, 3, 0, 99, 95, 95, 0, 3, 0, 99, 95, 95], tx_room = None\<rparr>)"
    by (simp add: b)
  from pl res show ?thesis
    by blast
qed

section \<open>The start of a session\<close>

lemma load_line_length:
  assumes "load_line ln = Some w"
  shows "0 < length w \<and> length w \<le> MAX_WORD_LEN"
proof -
  define line where "line = takeWhile (\<lambda>b. b \<noteq> 0 \<and> b \<noteq> 10 \<and> b \<noteq> 13) ln"
  have "load_line ln =
     (if length line = 0 then None
      else if length line > MAX_WORD_LEN then None
      else if \<not> list_all isalpha line then None
      else Some (map tolower line))"
    by (simp only: load_line_def Let_def line_def)
  with assms have "w = map tolower line" "length line \<noteq> 0" "\<not> length line > MAX_WORD_LEN"
    by (simp_all split: if_splits)
  then show ?thesis by simp
qed

lemma load_loop_lengths:
  assumes "\<forall>w\<in>set acc. 0 < length w \<and> length w \<le> MAX_WORD_LEN"
  shows "\<forall>w\<in>set (load_loop acc lns). 0 < length w \<and> length w \<le> MAX_WORD_LEN"
  using assms
proof (induction lns arbitrary: acc)
  case Nil
  then show ?case by simp
next
  case (Cons ln lns)
  show ?case
  proof (cases "length acc < MAX_WORDS")
    case False
    then have "load_loop acc (ln # lns) = acc" by simp
    with Cons.prems show ?thesis by (simp only:)
  next
    case True
    show ?thesis
    proof (cases "load_line ln")
      case None
      with True have "load_loop acc (ln # lns) = load_loop acc lns" by simp
      with Cons.IH [OF Cons.prems] show ?thesis by (simp only:)
    next
      case (Some w)
      with True have eq: "load_loop acc (ln # lns) = load_loop (acc @ [w]) lns" by simp
      from load_line_length [OF Some] Cons.prems
      have "\<forall>v\<in>set (acc @ [w]). 0 < length v \<and> length v \<le> MAX_WORD_LEN"
        by auto
      from Cons.IH [OF this] eq show ?thesis by (simp only:)
    qed
  qed
qed

lemma load_words_valid:
  assumes "load_words lns = Some words"
  shows "words \<noteq> [] \<and> (\<forall>w\<in>set words. 0 < length w \<and> length w \<le> MAX_WORD_LEN)"
proof -
  from assms have w: "words = load_loop [] lns" and ne: "words \<noteq> []"
    by (auto simp: load_words_def Let_def split: if_splits)
  from load_loop_lengths [of "[]" lns] w ne show ?thesis
    by simp
qed

lemma guess_loop_eof: "rx c = [] \<Longrightarrow> guess_loop s c = (Closed, s, c)"
  by (simp add: guess_loop.simps [of s c] guess_iter_def recv1_def)

text \<open>\<open>handle_client\<close> up to the guess loop, on a transport that does not fail.\<close>

lemma handle_client_started:
  assumes "words \<noteq> []"
    and "\<forall>w\<in>set words. 0 < length w \<and> length w \<le> MAX_WORD_LEN"
    and "length masked0 = MAX_WORD_LEN" and "length incorrect0 = MAX_INCORRECT"
    and "tx_room c = None" and "rx c = b # rest"
  shows "handle_client words rnd masked0 incorrect0 c =
     (case guess_loop (init_session words rnd masked0 incorrect0)
             (c\<lparr>rx := rest,
                tx := tx c @ spec_message (bytes ''Welcome to Hangman'')
                      @ board (init_session words rnd masked0 incorrect0)\<rparr>)
      of (st, s', c') \<Rightarrow> Game st s' c')"
proof -
  define s where "s = init_session words rnd masked0 incorrect0"
  have ok: "session_ok s"
    using init_session_start [OF assms(1-4), of rnd] by (simp add: s_def playing_def)
  have wl: "length (bytes ''Welcome to Hangman'') \<le> 255"
    by (simp add: length_bytes)
  define c1 where "c1 = c\<lparr>tx := tx c @ spec_message (bytes ''Welcome to Hangman'')\<rparr>"
  have w: "send_message_packet c (bytes ''Welcome to Hangman'') = (0, c1)"
    using send_message_packet_None [OF assms(5) wl] by (simp add: c1_def)
  have r: "recv1 c1 = (1, b, c1\<lparr>rx := rest\<rparr>)"
    using assms(6) by (simp add: recv1_def c1_def)
  have room: "tx_room (c1\<lparr>rx := rest\<rparr>) = None"
    using assms(5) by (simp add: c1_def)
  have g: "send_game_state (c1\<lparr>rx := rest\<rparr>) (masked s) (incorrect s) (word_len s)
             (num_incorrect s)
           = (0, c1\<lparr>rx := rest, tx := tx c1 @ board s\<rparr>)"
    using send_game_state_None [OF room ok] by simp
  have "c1\<lparr>rx := rest, tx := tx c1 @ board s\<rparr>
          = c\<lparr>rx := rest, tx := tx c @ spec_message (bytes ''Welcome to Hangman'') @ board s\<rparr>"
    by (simp add: c1_def)
  with w r g show ?thesis
    by (simp add: handle_client_def Let_def s_def [symmetric])
qed

text \<open>
  C9. The first byte the server receives after the welcome message, whatever its
  value: \<open>handle_client\<close> takes the word at the random index, sets up the session with
  the masked word all placeholders and the IncorrectSet empty, sends the board after
  the welcome message and enters the guess loop. The byte itself is not looked at: the
  session is the one the start byte 0 gives.
\<close>

theorem start_byte_not_checked:
  assumes "load_words lns = Some words"
    and "length masked0 = MAX_WORD_LEN" and "length incorrect0 = MAX_INCORRECT"
    and "tx_room c = None" and "rx c = b # rest"
  shows "handle_client words rnd masked0 incorrect0 c =
           (case guess_loop (init_session words rnd masked0 incorrect0)
                   (c\<lparr>rx := rest,
                      tx := tx c @ spec_message (bytes ''Welcome to Hangman'')
                            @ board (init_session words rnd masked0 incorrect0)\<rparr>)
            of (st, s', c') \<Rightarrow> Game st s' c')
       \<and> handle_client words rnd masked0 incorrect0 c
           = handle_client words rnd masked0 incorrect0 (c\<lparr>rx := 0 # rest\<rparr>)
       \<and> secret (init_session words rnd masked0 incorrect0) = words ! (rnd mod length words)
       \<and> masked_word (init_session words rnd masked0 incorrect0)
           = replicate (length (words ! (rnd mod length words))) 95
       \<and> incorrect_set (init_session words rnd masked0 incorrect0) = []
       \<and> playing (init_session words rnd masked0 incorrect0)"
proof -
  from load_words_valid [OF assms(1)]
  have ne: "words \<noteq> []" and len: "\<forall>w\<in>set words. 0 < length w \<and> length w \<le> MAX_WORD_LEN"
    by simp_all
  have a: "handle_client words rnd masked0 incorrect0 c =
           (case guess_loop (init_session words rnd masked0 incorrect0)
                   (c\<lparr>rx := rest,
                      tx := tx c @ spec_message (bytes ''Welcome to Hangman'')
                            @ board (init_session words rnd masked0 incorrect0)\<rparr>)
            of (st, s', c') \<Rightarrow> Game st s' c')"
    by (rule handle_client_started [OF ne len assms(2-5)])
  have "tx_room (c\<lparr>rx := 0 # rest\<rparr>) = None" "rx (c\<lparr>rx := 0 # rest\<rparr>) = 0 # rest"
    using assms(4) by simp_all
  from handle_client_started [OF ne len assms(2,3) this, of rnd]
  have b: "handle_client words rnd masked0 incorrect0 (c\<lparr>rx := 0 # rest\<rparr>) =
           (case guess_loop (init_session words rnd masked0 incorrect0)
                   (c\<lparr>rx := rest,
                      tx := tx c @ spec_message (bytes ''Welcome to Hangman'')
                            @ board (init_session words rnd masked0 incorrect0)\<rparr>)
            of (st, s', c') \<Rightarrow> Game st s' c')"
    by simp
  from a b init_session_start [OF ne len assms(2,3), of rnd] show ?thesis
    by simp
qed

theorem start_byte_not_checked_witness:
  "load_words [bytes ''cat'' @ [10]] = Some [bytes ''cat'']
   \<and> handle_client [bytes ''cat''] 5 (replicate 16 0) (replicate 8 0)
        \<lparr>rx = [121], tx = [], tx_room = None\<rparr>
      = Game Closed
          \<lparr>secret = bytes ''cat'', word_len = 3,
           masked = bytes ''___'' @ replicate 13 0, incorrect = replicate 8 0,
           num_incorrect = 0\<rparr>
          \<lparr>rx = [], tx = spec_message (bytes ''Welcome to Hangman'') @ [0, 3, 0, 95, 95, 95],
           tx_room = None\<rparr>
   \<and> handle_client [bytes ''cat''] 5 (replicate 16 0) (replicate 8 0)
        \<lparr>rx = [121], tx = [], tx_room = None\<rparr>
      = handle_client [bytes ''cat''] 5 (replicate 16 0) (replicate 8 0)
          \<lparr>rx = [0], tx = [], tx_room = None\<rparr>"
proof -
  let ?c = "\<lparr>rx = [121], tx = [], tx_room = None\<rparr>"
  let ?s = "init_session [bytes ''cat''] 5 (replicate 16 0) (replicate 8 0)"
  have lw: "load_words [bytes ''cat'' @ [10]] = Some [bytes ''cat'']" by code_simp
  have l1: "length (replicate 16 (0 :: u8)) = MAX_WORD_LEN" by code_simp
  have l2: "length (replicate 8 (0 :: u8)) = MAX_INCORRECT" by code_simp
  have room: "tx_room ?c = None" and rx: "rx ?c = 121 # []" by simp_all
  have s: "?s = \<lparr>secret = bytes ''cat'', word_len = 3,
                 masked = bytes ''___'' @ replicate 13 0, incorrect = replicate 8 0,
                 num_incorrect = 0\<rparr>"
    by code_simp
  have bd: "board ?s = [0, 3, 0, 95, 95, 95]" by code_simp
  have gl: "guess_loop ?s
       (?c\<lparr>rx := [], tx := tx ?c @ spec_message (bytes ''Welcome to Hangman'') @ board ?s\<rparr>)
     = (Closed, ?s,
        \<lparr>rx = [], tx = spec_message (bytes ''Welcome to Hangman'') @ [0, 3, 0, 95, 95, 95],
         tx_room = None\<rparr>)"
    by (simp add: guess_loop_eof bd)
  note t = start_byte_not_checked [OF lw l1 l2 room rx, of 5]
  have a: "handle_client [bytes ''cat''] 5 (replicate 16 0) (replicate 8 0) ?c
          = (case guess_loop ?s
               (?c\<lparr>rx := [], tx := tx ?c @ spec_message (bytes ''Welcome to Hangman'')
                    @ board ?s\<rparr>)
             of (st, s', c') \<Rightarrow> Game st s' c')"
    by (rule t [THEN conjunct1])
  have eq: "handle_client [bytes ''cat''] 5 (replicate 16 0) (replicate 8 0) ?c
          = handle_client [bytes ''cat''] 5 (replicate 16 0) (replicate 8 0) (?c\<lparr>rx := [0]\<rparr>)"
    by (rule t [THEN conjunct2, THEN conjunct1])
  have res: "handle_client [bytes ''cat''] 5 (replicate 16 0) (replicate 8 0) ?c
      = Game Closed
          \<lparr>secret = bytes ''cat'', word_len = 3,
           masked = bytes ''___'' @ replicate 13 0, incorrect = replicate 8 0,
           num_incorrect = 0\<rparr>
          \<lparr>rx = [], tx = spec_message (bytes ''Welcome to Hangman'') @ [0, 3, 0, 95, 95, 95],
           tx_room = None\<rparr>"
    unfolding a gl by (simp only: prod.case s)
  from eq have eq': "handle_client [bytes ''cat''] 5 (replicate 16 0) (replicate 8 0) ?c
          = handle_client [bytes ''cat''] 5 (replicate 16 0) (replicate 8 0)
              \<lparr>rx = [0], tx = [], tx_room = None\<rparr>"
    by simp
  from lw res eq' show ?thesis
    by blast
qed

section \<open>A game won\<close>

lemma length_masked_word: "session_ok s \<Longrightarrow> length (masked_word s) = length (secret s)"
  by (simp add: session_ok_def masked_word_def)

lemma masked_word_apply_guess:
  assumes "session_ok s"
  shows "masked_word (apply_guess s l) =
     (if l \<notin> set (masked_word s) \<and> l \<notin> set (incorrect_set s)
      then map2 (\<lambda>m x. if x = l then l else m) (masked_word s) (secret s)
      else masked_word s)"
proof (rule nth_equalityI)
  show "length (masked_word (apply_guess s l)) =
     length (if l \<notin> set (masked_word s) \<and> l \<notin> set (incorrect_set s)
      then map2 (\<lambda>m x. if x = l then l else m) (masked_word s) (secret s)
      else masked_word s)"
    using apply_guess_cases [OF assms, of l] length_masked_word [OF assms] by simp
next
  fix j
  assume "j < length (masked_word (apply_guess s l))"
  then have j: "j < length (masked_word s)"
    using apply_guess_cases [OF assms, of l] by simp
  then have "masked_word (apply_guess s l) ! j =
            (if l \<notin> set (masked_word s) \<and> l \<notin> set (incorrect_set s) \<and> secret s ! j = l
             then l else masked_word s ! j)"
    using apply_guess_cases [OF assms, of l] by blast
  with j length_masked_word [OF assms]
  show "masked_word (apply_guess s l) ! j =
     (if l \<notin> set (masked_word s) \<and> l \<notin> set (incorrect_set s)
      then map2 (\<lambda>m x. if x = l then l else m) (masked_word s) (secret s)
      else masked_word s) ! j"
    by simp
qed

text \<open>
  A guess of a letter of the word that is new, in the vocabulary of the
  specification: the letter is revealed, the IncorrectSet stays.
\<close>

lemma guess_iter_hit:
  assumes "session_ok s" and "tx_room c = None" and "rx c = 1 # l # rest"
    and "tolower l \<notin> set (masked_word s)" and "tolower l \<notin> set (incorrect_set s)"
    and "tolower l \<in> set (secret s)"
    and "length (incorrect_set s) < MAX_INCORRECT"
    and "mw = map2 (\<lambda>m x. if x = tolower l then tolower l else m) (masked_word s) (secret s)"
  shows "\<exists>s'. session_ok s' \<and> secret s' = secret s \<and> masked_word s' = mw
           \<and> incorrect_set s' = incorrect_set s
           \<and> guess_iter s c =
               (if 95 \<notin> set mw
                then (Won, s', c\<lparr>rx := rest, tx := tx c @ final_messages s' ''You Win!''\<rparr>)
                else (Playing, s', c\<lparr>rx := rest, tx := tx c @ board s'\<rparr>))"
proof -
  define s' where "s' = apply_guess s (tolower l)"
  from apply_guess_cases [OF assms(1), of "tolower l"] assms(4,5,6)
  have ok': "session_ok s'" and sec: "secret s' = secret s"
    and inc: "incorrect_set s' = incorrect_set s"
    by (simp_all add: s'_def)
  have mw: "masked_word s' = mw"
    using masked_word_apply_guess [OF assms(1), of "tolower l"] assms(4,5,8)
    by (simp add: s'_def)
  have cap: "\<not> unat (num_incorrect s') \<ge> MAX_INCORRECT"
    using inc assms(7) length_incorrect_set [OF ok'] by simp
  have "guess_iter s c =
               (if 95 \<notin> set mw
                then (Won, s', c\<lparr>rx := rest, tx := tx c @ final_messages s' ''You Win!''\<rparr>)
                else (Playing, s', c\<lparr>rx := rest, tx := tx c @ board s'\<rparr>))"
    using guess_iter_guess [OF assms(1,2,3)] cap all_revealed_iff [OF ok'] mw
    by (simp add: Let_def s'_def [symmetric])
  with ok' sec mw inc show ?thesis by blast
qed

text \<open>
  C7. The word "cat" and the guesses c, a, t, after the start byte: the rounds leave
  the masked word \<open>c__\<close> (which the client prints as "c _ _") with the IncorrectSet
  empty and the status Playing, then \<open>ca_\<close>, then \<open>cat\<close> with the status Won; the
  server has then sent the welcome message, the boards \<open>___\<close>, \<open>c__\<close> and \<open>ca_\<close> and
  the messages "The word was c a t", "You Win!" and "Game Over!", in this order.
\<close>

theorem cat_scenario:
  assumes "load_words lns = Some words" and "words ! (rnd mod length words) = bytes ''cat''"
    and "length masked0 = MAX_WORD_LEN" and "length incorrect0 = MAX_INCORRECT"
  shows "\<exists>s1 s2 s3.
       guess_iter (init_session words rnd masked0 incorrect0)
          \<lparr>rx = [1, 99, 1, 97, 1, 116],
           tx = spec_message (bytes ''Welcome to Hangman'') @ spec_game_control (bytes ''___'') [],
           tx_room = None\<rparr>
        = (Playing, s1,
           \<lparr>rx = [1, 97, 1, 116],
            tx = spec_message (bytes ''Welcome to Hangman'') @ spec_game_control (bytes ''___'') []
                 @ spec_game_control (bytes ''c__'') [],
            tx_room = None\<rparr>)
     \<and> masked_word s1 = bytes ''c__'' \<and> incorrect_set s1 = []
     \<and> print_cells (masked_word s1) 3 = bytes ''c _ _''
     \<and> guess_iter s1
          \<lparr>rx = [1, 97, 1, 116],
           tx = spec_message (bytes ''Welcome to Hangman'') @ spec_game_control (bytes ''___'') []
                @ spec_game_control (bytes ''c__'') [],
           tx_room = None\<rparr>
        = (Playing, s2,
           \<lparr>rx = [1, 116],
            tx = spec_message (bytes ''Welcome to Hangman'') @ spec_game_control (bytes ''___'') []
                 @ spec_game_control (bytes ''c__'') [] @ spec_game_control (bytes ''ca_'') [],
            tx_room = None\<rparr>)
     \<and> masked_word s2 = bytes ''ca_'' \<and> incorrect_set s2 = []
     \<and> guess_iter s2
          \<lparr>rx = [1, 116],
           tx = spec_message (bytes ''Welcome to Hangman'') @ spec_game_control (bytes ''___'') []
                @ spec_game_control (bytes ''c__'') [] @ spec_game_control (bytes ''ca_'') [],
           tx_room = None\<rparr>
        = (Won, s3,
           \<lparr>rx = [],
            tx = spec_message (bytes ''Welcome to Hangman'') @ spec_game_control (bytes ''___'') []
                 @ spec_game_control (bytes ''c__'') [] @ spec_game_control (bytes ''ca_'') []
                 @ spec_message (bytes ''The word was c a t'') @ spec_message (bytes ''You Win!'')
                 @ spec_message (bytes ''Game Over!''),
            tx_room = None\<rparr>)
     \<and> masked_word s3 = bytes ''cat'' \<and> incorrect_set s3 = []
     \<and> handle_client words rnd masked0 incorrect0
          \<lparr>rx = [0, 1, 99, 1, 97, 1, 116], tx = [], tx_room = None\<rparr>
        = Game Won s3
           \<lparr>rx = [],
            tx = spec_message (bytes ''Welcome to Hangman'') @ spec_game_control (bytes ''___'') []
                 @ spec_game_control (bytes ''c__'') [] @ spec_game_control (bytes ''ca_'') []
                 @ spec_message (bytes ''The word was c a t'') @ spec_message (bytes ''You Win!'')
                 @ spec_message (bytes ''Game Over!''),
            tx_room = None\<rparr>"
proof -
  let ?w = "spec_message (bytes ''Welcome to Hangman'')"
  let ?b0 = "spec_game_control (bytes ''___'') []"
  let ?b1 = "spec_game_control (bytes ''c__'') []"
  let ?b2 = "spec_game_control (bytes ''ca_'') []"
  let ?fin = "spec_message (bytes ''The word was c a t'') @ spec_message (bytes ''You Win!'')
                 @ spec_message (bytes ''Game Over!'')"
  define s0 where "s0 = init_session words rnd masked0 incorrect0"
  define c0 where "c0 = \<lparr>rx = [1, 99, 1, 97, 1, 116], tx = ?w @ ?b0, tx_room = None\<rparr>"
  define c1 where "c1 = \<lparr>rx = [1, 97, 1, 116], tx = ?w @ ?b0 @ ?b1, tx_room = None\<rparr>"
  define c2 where "c2 = \<lparr>rx = [1, 116], tx = ?w @ ?b0 @ ?b1 @ ?b2, tx_room = None\<rparr>"
  define c3 where "c3 = \<lparr>rx = [], tx = ?w @ ?b0 @ ?b1 @ ?b2 @ ?fin, tx_room = None\<rparr>"
  have cat: "bytes ''cat'' = [99, 97, 116]" "bytes ''___'' = [95, 95, 95]"
    "bytes ''c__'' = [99, 95, 95]" "bytes ''ca_'' = [99, 97, 95]"
    by (simp_all add: bytes_def)
  have low: "tolower 99 = 99" "tolower 97 = 97" "tolower 116 = 116"
    by (simp_all add: tolower_def)
  from load_words_valid [OF assms(1)]
  have ne: "words \<noteq> []" and len: "\<forall>w\<in>set words. 0 < length w \<and> length w \<le> MAX_WORD_LEN"
    by simp_all
  from init_session_start [OF ne len assms(3,4), of rnd] assms(2)
  have sec0: "secret s0 = [99, 97, 116]" and mw0: "masked_word s0 = [95, 95, 95]"
    and inc0: "incorrect_set s0 = []" and pl0: "playing s0"
    by (simp_all add: s0_def cat eval_nat_numeral)
  from pl0 have ok0: "session_ok s0" by (simp add: playing_def)
  have bd0: "board s0 = ?b0"
    by (simp add: board_def mw0 inc0 cat)
  \<comment> \<open>the guess c\<close>
  have "\<exists>s'. session_ok s' \<and> secret s' = secret s0 \<and> masked_word s' = [99, 95, 95]
           \<and> incorrect_set s' = incorrect_set s0
           \<and> guess_iter s0 c0 =
               (if 95 \<notin> set [99, 95, 95 :: u8]
                then (Won, s', c0\<lparr>rx := [1, 97, 1, 116],
                                   tx := tx c0 @ final_messages s' ''You Win!''\<rparr>)
                else (Playing, s', c0\<lparr>rx := [1, 97, 1, 116], tx := tx c0 @ board s'\<rparr>))"
    by (rule guess_iter_hit [OF ok0, where l = 99])
       (simp_all add: c0_def low mw0 inc0 sec0 MAX_INCORRECT_def)
  then obtain s1 where ok1: "session_ok s1" and sec1: "secret s1 = [99, 97, 116]"
    and mw1: "masked_word s1 = [99, 95, 95]" and inc1: "incorrect_set s1 = []"
    and g1: "guess_iter s0 c0 = (Playing, s1, c0\<lparr>rx := [1, 97, 1, 116], tx := tx c0 @ board s1\<rparr>)"
    by (auto simp: sec0 inc0)
  have bd1: "board s1 = ?b1"
    by (simp add: board_def mw1 inc1 cat)
  have g1': "guess_iter s0 c0 = (Playing, s1, c1)"
    unfolding g1 bd1 by (simp add: c0_def c1_def)
  \<comment> \<open>the guess a\<close>
  have "\<exists>s'. session_ok s' \<and> secret s' = secret s1 \<and> masked_word s' = [99, 97, 95]
           \<and> incorrect_set s' = incorrect_set s1
           \<and> guess_iter s1 c1 =
               (if 95 \<notin> set [99, 97, 95 :: u8]
                then (Won, s', c1\<lparr>rx := [1, 116], tx := tx c1 @ final_messages s' ''You Win!''\<rparr>)
                else (Playing, s', c1\<lparr>rx := [1, 116], tx := tx c1 @ board s'\<rparr>))"
    by (rule guess_iter_hit [OF ok1, where l = 97])
       (simp_all add: c1_def low mw1 inc1 sec1 MAX_INCORRECT_def)
  then obtain s2 where ok2: "session_ok s2" and sec2: "secret s2 = [99, 97, 116]"
    and mw2: "masked_word s2 = [99, 97, 95]" and inc2: "incorrect_set s2 = []"
    and g2: "guess_iter s1 c1 = (Playing, s2, c1\<lparr>rx := [1, 116], tx := tx c1 @ board s2\<rparr>)"
    by (auto simp: sec1 inc1)
  have bd2: "board s2 = ?b2"
    by (simp add: board_def mw2 inc2 cat)
  have g2': "guess_iter s1 c1 = (Playing, s2, c2)"
    unfolding g2 bd2 by (simp add: c1_def c2_def)
  \<comment> \<open>the guess t\<close>
  have "\<exists>s'. session_ok s' \<and> secret s' = secret s2 \<and> masked_word s' = [99, 97, 116]
           \<and> incorrect_set s' = incorrect_set s2
           \<and> guess_iter s2 c2 =
               (if 95 \<notin> set [99, 97, 116 :: u8]
                then (Won, s', c2\<lparr>rx := [], tx := tx c2 @ final_messages s' ''You Win!''\<rparr>)
                else (Playing, s', c2\<lparr>rx := [], tx := tx c2 @ board s'\<rparr>))"
    by (rule guess_iter_hit [OF ok2, where l = 116])
       (simp_all add: c2_def low mw2 inc2 sec2 MAX_INCORRECT_def)
  then obtain s3 where sec3: "secret s3 = [99, 97, 116]"
    and mw3: "masked_word s3 = [99, 97, 116]" and inc3: "incorrect_set s3 = []"
    and g3: "guess_iter s2 c2
               = (Won, s3, c2\<lparr>rx := [], tx := tx c2 @ final_messages s3 ''You Win!''\<rparr>)"
    by (auto simp: sec2 inc2)
  have "spec_reveal [99, 97, 116] = bytes ''The word was c a t''"
    by (simp add: spec_reveal_def bytes_def)
  then have fin: "final_messages s3 ''You Win!'' = ?fin"
    by (simp add: final_messages_def sec3)
  have g3': "guess_iter s2 c2 = (Won, s3, c3)"
    unfolding g3 fin by (simp add: c2_def c3_def)
  \<comment> \<open>the whole call\<close>
  have "guess_loop s2 c2 = (Won, s3, c3)"
    by (simp add: guess_loop.simps [of s2 c2] g3')
  then have "guess_loop s1 c1 = (Won, s3, c3)"
    by (simp add: guess_loop.simps [of s1 c1] g2')
  then have gl: "guess_loop s0 c0 = (Won, s3, c3)"
    by (simp add: guess_loop.simps [of s0 c0] g1')
  have "handle_client words rnd masked0 incorrect0
          \<lparr>rx = [0, 1, 99, 1, 97, 1, 116], tx = [], tx_room = None\<rparr>
        = (case guess_loop s0 c0 of (st, s', c') \<Rightarrow> Game st s' c')"
    using handle_client_started [OF ne len assms(3,4),
        of "\<lparr>rx = [0, 1, 99, 1, 97, 1, 116], tx = [], tx_room = None\<rparr>" 0
           "[1, 99, 1, 97, 1, 116]" rnd]
    by (simp add: s0_def [symmetric] bd0 c0_def)
  then have hc: "handle_client words rnd masked0 incorrect0
          \<lparr>rx = [0, 1, 99, 1, 97, 1, 116], tx = [], tx_room = None\<rparr> = Game Won s3 c3"
    by (simp add: gl)
  have pc: "print_cells (masked_word s1) 3 = bytes ''c _ _''"
    by (simp add: print_cells_def mw1 bytes_def upt_rec)
  from g1' g2' g3' hc pc mw1 mw2 mw3 inc1 inc2 inc3 show ?thesis
    unfolding s0_def c0_def c1_def c2_def c3_def cat
    by blast
qed

theorem cat_scenario_witness:
  "load_words [bytes ''cat'' @ [10]] = Some [bytes ''cat'']
   \<and> [bytes ''cat''] ! (0 mod length [bytes ''cat'']) = bytes ''cat''
   \<and> length (replicate 16 (0 :: u8)) = MAX_WORD_LEN
   \<and> length (replicate 8 (0 :: u8)) = MAX_INCORRECT
   \<and> (\<exists>s3. masked_word s3 = bytes ''cat''
        \<and> handle_client [bytes ''cat''] 0 (replicate 16 0) (replicate 8 0)
             \<lparr>rx = [0, 1, 99, 1, 97, 1, 116], tx = [], tx_room = None\<rparr>
           = Game Won s3
              \<lparr>rx = [],
               tx = spec_message (bytes ''Welcome to Hangman'')
                    @ spec_game_control (bytes ''___'') []
                    @ spec_game_control (bytes ''c__'') [] @ spec_game_control (bytes ''ca_'') []
                    @ spec_message (bytes ''The word was c a t'')
                    @ spec_message (bytes ''You Win!'') @ spec_message (bytes ''Game Over!''),
               tx_room = None\<rparr>)"
proof -
  have lw: "load_words [bytes ''cat'' @ [10]] = Some [bytes ''cat'']" by code_simp
  have ix: "[bytes ''cat''] ! (0 mod length [bytes ''cat'']) = bytes ''cat''" by simp
  have l1: "length (replicate 16 (0 :: u8)) = MAX_WORD_LEN" by code_simp
  have l2: "length (replicate 8 (0 :: u8)) = MAX_INCORRECT" by code_simp
  from cat_scenario [OF lw ix l1 l2]
  obtain s3 where "masked_word s3 = bytes ''cat''"
    and "handle_client [bytes ''cat''] 0 (replicate 16 0) (replicate 8 0)
             \<lparr>rx = [0, 1, 99, 1, 97, 1, 116], tx = [], tx_room = None\<rparr>
           = Game Won s3
              \<lparr>rx = [],
               tx = spec_message (bytes ''Welcome to Hangman'')
                    @ spec_game_control (bytes ''___'') []
                    @ spec_game_control (bytes ''c__'') [] @ spec_game_control (bytes ''ca_'') []
                    @ spec_message (bytes ''The word was c a t'')
                    @ spec_message (bytes ''You Win!'') @ spec_message (bytes ''Game Over!''),
               tx_room = None\<rparr>"
    by blast
  with lw ix l1 l2 show ?thesis
    by blast
qed

section \<open>The board on the wire\<close>

lemma recv_all_prefix:
  "length pre = n \<Longrightarrow> recv_all (c\<lparr>rx := pre @ rest\<rparr>) n = (0, pre, c\<lparr>rx := rest\<rparr>)"
  by (simp add: recv_all_def)

text \<open>The client's reading of a game-control packet in the format of the specification.\<close>

lemma recv_packet_game_control:
  assumes "length mw \<le> 8" and "length mw + length inc \<le> 16"
  shows "recv_packet (k\<lparr>rx := spec_game_control mw inc @ rest\<rparr>)
           = (Some (GameControl (of_nat (length mw)) (of_nat (length inc)) mw inc),
              k\<lparr>rx := rest\<rparr>)"
proof -
  let ?wl = "of_nat (length mw) :: u8" and ?ni = "of_nat (length inc) :: u8"
  have u: "unat ?wl = length mw" "unat ?ni = length inc"
    using assms by (simp_all add: unat_of_nat)
  have le: "\<not> ?wl > 8"
    using u(1) assms(1) by (simp add: word_less_nat_alt)
  have r1: "recv_all (k\<lparr>rx := [0] @ (?wl # ?ni # mw @ inc @ rest)\<rparr>) 1
              = (0, [0], k\<lparr>rx := ?wl # ?ni # mw @ inc @ rest\<rparr>)"
    by (rule recv_all_prefix) simp
  have r2: "recv_all (k\<lparr>rx := [?wl, ?ni] @ (mw @ inc @ rest)\<rparr>) 2
              = (0, [?wl, ?ni], k\<lparr>rx := mw @ inc @ rest\<rparr>)"
    by (rule recv_all_prefix) simp
  have r3: "recv_all (k\<lparr>rx := (mw @ inc) @ rest\<rparr>) (length mw + length inc)
              = (0, mw @ inc, k\<lparr>rx := rest\<rparr>)"
    by (rule recv_all_prefix) simp
  show ?thesis
    using r1 r2 r3 le assms(2)
    by (simp add: recv_packet_def spec_game_control_def Let_def u)
qed

text \<open>
  C6. A game-control packet with \<open>wordLen\<close> in 1..8 and \<open>numIncorrect\<close> in 0..8, its
  bytes in arrays that hold at least that many: \<open>send_game_state\<close> sends the packet in
  the format of the specification, and \<open>recv_packet\<close>, the reading half of the client's
  \<open>recv_and_print_one_packet\<close>, finds in these bytes the two counts and the masked and
  incorrect bytes as they were, and leaves what follows in the stream.
\<close>

theorem game_control_round_trip:
  assumes "1 \<le> unat wl" and "unat wl \<le> 8" and "unat ni \<le> 8"
    and "unat wl \<le> length m" and "unat ni \<le> length inc"
    and "tx_room c = None"
  shows "send_game_state c m inc wl ni
           = (0, c\<lparr>tx := tx c @ spec_game_control (take (unat wl) m) (take (unat ni) inc)\<rparr>)
       \<and> recv_packet (k\<lparr>rx := spec_game_control (take (unat wl) m) (take (unat ni) inc) @ rest\<rparr>)
           = (Some (GameControl wl ni (take (unat wl) m) (take (unat ni) inc)), k\<lparr>rx := rest\<rparr>)
       \<and> recv_and_print_one_packet
             (k\<lparr>rx := spec_game_control (take (unat wl) m) (take (unat ni) inc) @ rest\<rparr>)
           = (3, snd (print_packet (GameControl wl ni (take (unat wl) m) (take (unat ni) inc))),
              k\<lparr>rx := rest\<rparr>)"
proof -
  let ?mw = "take (unat wl) m" and ?in = "take (unat ni) inc"
  have lens: "length ?mw = unat wl" "length ?in = unat ni"
    using assms(4,5) by simp_all
  have "of_nat (unat wl) = wl" "of_nat (unat ni) = ni"
    by simp_all
  then have ofn: "of_nat (length ?mw) = wl" "of_nat (length ?in) = ni"
    by (simp_all only: lens)
  have nz: "wl \<noteq> 0"
    using assms(1) by (auto simp: unat_gt_0 [symmetric])
  have enc: "send_game_state c m inc wl ni = (0, c\<lparr>tx := tx c @ spec_game_control ?mw ?in\<rparr>)"
    using assms nz
    by (simp add: send_game_state_def map_nth_take send_all_None spec_game_control_def
                  MAX_WORD_LEN_def)
  have dec: "recv_packet (k\<lparr>rx := spec_game_control ?mw ?in @ rest\<rparr>)
           = (Some (GameControl wl ni ?mw ?in), k\<lparr>rx := rest\<rparr>)"
    using recv_packet_game_control [where mw = ?mw and inc = ?in and k = k and rest = rest]
      assms(2,3)
    by (simp only: lens ofn) simp
  have "fst (print_packet (GameControl wl ni ?mw ?in)) = 3"
    by (simp add: print_packet_def)
  then have prt: "recv_and_print_one_packet (k\<lparr>rx := spec_game_control ?mw ?in @ rest\<rparr>)
           = (3, snd (print_packet (GameControl wl ni ?mw ?in)), k\<lparr>rx := rest\<rparr>)"
    by (auto simp: recv_and_print_one_packet_def dec split: prod.splits)
  from enc dec prt show ?thesis by simp
qed

theorem game_control_round_trip_witness:
  "1 \<le> unat (3 :: u8) \<and> unat (3 :: u8) \<le> 8 \<and> unat (2 :: u8) \<le> 8
   \<and> send_game_state \<lparr>rx = [], tx = [], tx_room = None\<rparr>
        (bytes ''c_t'' @ replicate 13 0) (bytes ''xz'' @ replicate 6 0) 3 2
      = (0, \<lparr>rx = [], tx = [0, 3, 2] @ bytes ''c_t'' @ bytes ''xz'', tx_room = None\<rparr>)
   \<and> recv_packet \<lparr>rx = [0, 3, 2] @ bytes ''c_t'' @ bytes ''xz'', tx = [], tx_room = None\<rparr>
      = (Some (GameControl 3 2 (bytes ''c_t'') (bytes ''xz'')),
         \<lparr>rx = [], tx = [], tx_room = None\<rparr>)"
proof -
  let ?m = "bytes ''c_t'' @ replicate 13 0" and ?inc = "bytes ''xz'' @ replicate 6 0"
  let ?c = "\<lparr>rx = [], tx = [], tx_room = None\<rparr>"
  have h: "1 \<le> unat (3 :: u8)" "unat (3 :: u8) \<le> 8" "unat (2 :: u8) \<le> 8"
    "unat (3 :: u8) \<le> length ?m" "unat (2 :: u8) \<le> length ?inc" "tx_room ?c = None"
    by (simp_all add: bytes_def)
  have t: "take (unat (3 :: u8)) ?m = bytes ''c_t''" "take (unat (2 :: u8)) ?inc = bytes ''xz''"
    by (simp_all add: bytes_def)
  have sg: "spec_game_control (bytes ''c_t'') (bytes ''xz'') = [0, 3, 2] @ bytes ''c_t'' @ bytes ''xz''"
    by (simp add: spec_game_control_def bytes_def)
  note r = game_control_round_trip [OF h, where k = ?c and rest = "[]", unfolded t sg]
  have a: "send_game_state ?c ?m ?inc 3 2
      = (0, \<lparr>rx = [], tx = [0, 3, 2] @ bytes ''c_t'' @ bytes ''xz'', tx_room = None\<rparr>)"
    using r [THEN conjunct1] by simp
  have b: "recv_packet \<lparr>rx = [0, 3, 2] @ bytes ''c_t'' @ bytes ''xz'', tx = [], tx_room = None\<rparr>
      = (Some (GameControl 3 2 (bytes ''c_t'') (bytes ''xz'')), ?c)"
    using r [THEN conjunct2, THEN conjunct1] by simp
  from h(1,2,3) a b show ?thesis by blast
qed

section \<open>The two ceilings on the word length\<close>

lemma isalpha_not_eol: "isalpha b \<Longrightarrow> b \<noteq> 0 \<and> b \<noteq> 10 \<and> b \<noteq> 13"
  by (auto simp: isalpha_def)

lemma load_line_word:
  assumes "list_all isalpha line" and "1 \<le> length line" and "length line \<le> 16"
  shows "load_line (line @ [10]) = Some (map tolower line)"
proof -
  have "\<forall>b\<in>set line. b \<noteq> 0 \<and> b \<noteq> 10 \<and> b \<noteq> 13"
    using assms(1) isalpha_not_eol by (auto simp: list_all_iff)
  then have "takeWhile (\<lambda>b. b \<noteq> 0 \<and> b \<noteq> 10 \<and> b \<noteq> 13) (line @ [10]) = line"
    by (simp add: takeWhile_append2)
  moreover from assms(2) have "line \<noteq> []" by auto
  ultimately show ?thesis
    using assms by (simp add: load_line_def Let_def MAX_WORD_LEN_def)
qed

lemma load_words_word:
  assumes "list_all isalpha line" and "1 \<le> length line" and "length line \<le> 16"
  shows "load_words [line @ [10]] = Some [map tolower line]"
  using load_line_word [OF assms]
  by (simp add: load_words_def MAX_WORDS_def)

text \<open>The client on a game-control packet that declares a word of more than 8 letters.\<close>

lemma recv_packet_too_long:
  assumes "wlen > 8"
  shows "recv_packet (k\<lparr>rx := 0 # wlen # nbad # rest\<rparr>) = (None, k\<lparr>rx := rest\<rparr>)"
proof -
  have r1: "recv_all (k\<lparr>rx := [0] @ (wlen # nbad # rest)\<rparr>) 1
              = (0, [0], k\<lparr>rx := wlen # nbad # rest\<rparr>)"
    by (rule recv_all_prefix) simp
  have r2: "recv_all (k\<lparr>rx := [wlen, nbad] @ rest\<rparr>) 2 = (0, [wlen, nbad], k\<lparr>rx := rest\<rparr>)"
    by (rule recv_all_prefix) simp
  from r1 r2 assms show ?thesis
    by (simp add: recv_packet_def Let_def)
qed

lemma recv_and_print_too_long:
  "wlen > 8 \<Longrightarrow>
   recv_and_print_one_packet (k\<lparr>rx := 0 # wlen # nbad # rest\<rparr>) = (-1, [], k\<lparr>rx := rest\<rparr>)"
  by (simp add: recv_and_print_one_packet_def recv_packet_too_long)

text \<open>The client's reading of a message packet in the format of the specification.\<close>

lemma recv_packet_message:
  assumes "0 < length msg" and "length msg \<le> 255"
  shows "recv_packet (k\<lparr>rx := spec_message msg @ rest\<rparr>)
           = (Some (Message (of_nat (length msg)) msg), k\<lparr>rx := rest\<rparr>)"
proof -
  let ?n = "of_nat (length msg) :: u8"
  have u: "unat ?n = length msg"
    using assms(2) by (simp add: unat_of_nat)
  have pos: "?n > 0"
    using u assms(1) by (simp add: word_less_nat_alt)
  have r1: "recv_all (k\<lparr>rx := [?n] @ (msg @ rest)\<rparr>) 1 = (0, [?n], k\<lparr>rx := msg @ rest\<rparr>)"
    by (rule recv_all_prefix) simp
  have r2: "recv_all (k\<lparr>rx := msg @ rest\<rparr>) (length msg) = (0, msg, k\<lparr>rx := rest\<rparr>)"
    by (rule recv_all_prefix) simp
  from r1 r2 pos show ?thesis
    by (simp add: recv_packet_def spec_message_def Let_def u)
qed

text \<open>
  A client that receives the welcome message and the first board of a word of more
  than 8 letters, and whose user answers \<open>y\<close>: it sends the start byte, fails on the
  board and exits with the code 1.
\<close>

lemma client_rejects_long_board:
  assumes "8 < n" and "n \<le> 16"
  shows "client_main
           \<lparr>sock = \<lparr>rx = spec_message (bytes ''Welcome to Hangman'')
                         @ spec_game_control (replicate n 95) [],
                    tx = [], tx_room = None\<rparr>,
            stdin = bytes ''y'' @ [10], stdout = []\<rparr>
         = (1, \<lparr>sock = \<lparr>rx = replicate n 95, tx = [0], tx_room = None\<rparr>,
                stdin = [],
                stdout = bytes ''>>>Welcome to Hangman'' @ [10]
                         @ bytes ''>>> Ready to start game? (y/n): ''\<rparr>)"
proof -
  define W where "W = bytes ''Welcome to Hangman''"
  define B where "B = spec_game_control (replicate n 95) []"
  define o1 where "o1 = bytes ''>>>Welcome to Hangman'' @ [10]"
  define o2 where "o2 = bytes ''>>> Ready to start game? (y/n): ''"
  define inp where "inp = bytes ''y'' @ [10]"
  have u: "unat (of_nat n :: u8) = n"
    using assms(2) by (simp add: unat_of_nat)
  have big: "(of_nat n :: u8) > 8"
    using u assms(1) by (simp add: word_less_nat_alt)
  have B: "B = 0 # of_nat n # 0 # replicate n 95"
    by (simp add: B_def spec_game_control_def)
  \<comment> \<open>the welcome message\<close>
  have lw: "0 < length W" "length W \<le> 255"
    by (simp_all add: W_def length_bytes)
  have "recv_packet (\<lparr>rx = [], tx = [], tx_room = None\<rparr>\<lparr>rx := spec_message W @ B\<rparr>)
          = (Some (Message (of_nat (length W)) W),
             \<lparr>rx = [], tx = [], tx_room = None\<rparr>\<lparr>rx := B\<rparr>)"
    by (rule recv_packet_message [OF lw])
  then have p1: "recv_packet \<lparr>rx = spec_message W @ B, tx = [], tx_room = None\<rparr>
          = (Some (Message (of_nat (length W)) W), \<lparr>rx = B, tx = [], tx_room = None\<rparr>)"
    by simp
  have pr: "print_packet (Message (of_nat (length W)) W) = (4, o1)"
    unfolding W_def o1_def by code_simp
  have s1: "recv_and_print_one_packet \<lparr>rx = spec_message W @ B, tx = [], tx_room = None\<rparr>
          = (4, o1, \<lparr>rx = B, tx = [], tx_room = None\<rparr>)"
    by (simp add: recv_and_print_one_packet_def p1 pr)
  \<comment> \<open>the board\<close>
  have "recv_and_print_one_packet
          (\<lparr>rx = [], tx = [0], tx_room = None\<rparr>\<lparr>rx := 0 # of_nat n # 0 # replicate n 95\<rparr>)
        = (-1, [], \<lparr>rx = [], tx = [0], tx_room = None\<rparr>\<lparr>rx := replicate n 95\<rparr>)"
    by (rule recv_and_print_too_long [OF big])
  then have s3: "recv_and_print_one_packet \<lparr>rx = B, tx = [0], tx_room = None\<rparr>
        = (-1, [], \<lparr>rx = replicate n 95, tx = [0], tx_room = None\<rparr>)"
    by (simp add: B)
  have rb: "read_to_board
              \<lparr>sock = \<lparr>rx = B, tx = [0], tx_room = None\<rparr>, stdin = [], stdout = o1 @ o2\<rparr>
            = (-1, \<lparr>sock = \<lparr>rx = replicate n 95, tx = [0], tx_room = None\<rparr>, stdin = [],
                    stdout = o1 @ o2\<rparr>)"
    by (subst read_to_board.simps) (simp add: s3)
  have pl: "play
              \<lparr>sock = \<lparr>rx = B, tx = [0], tx_room = None\<rparr>, stdin = [], stdout = o1 @ o2\<rparr>
            = (1, \<lparr>sock = \<lparr>rx = replicate n 95, tx = [0], tx_room = None\<rparr>, stdin = [],
                   stdout = o1 @ o2\<rparr>)"
    by (simp add: play_def rb)
  \<comment> \<open>the prompt\<close>
  have fg: "fgets 128 inp = Some ([121, 10], [])"
    unfolding inp_def by code_simp
  have sp: "start_prompt
              \<lparr>sock = \<lparr>rx = B, tx = [], tx_room = None\<rparr>, stdin = inp, stdout = o1\<rparr>
            = (1, \<lparr>sock = \<lparr>rx = replicate n 95, tx = [0], tx_room = None\<rparr>, stdin = [],
                   stdout = o1 @ o2\<rparr>)"
    by (simp add: start_prompt_def fg send_all_def pl o2_def [symmetric])
  have "client_main
           \<lparr>sock = \<lparr>rx = spec_message W @ B, tx = [], tx_room = None\<rparr>,
            stdin = inp, stdout = []\<rparr>
         = (1, \<lparr>sock = \<lparr>rx = replicate n 95, tx = [0], tx_room = None\<rparr>,
                stdin = [], stdout = o1 @ o2\<rparr>)"
    by (simp add: client_main_def s1 sp)
  then show ?thesis
    by (simp add: W_def B_def o1_def o2_def inp_def)
qed

text \<open>
  C5. The server loads every alphabetic word of 1 to \<open>MAX_WORD_LEN\<close> = 16 letters (a
  one-line word file is accepted and gives the word in lower case). The client answers
  every game-control packet that declares a word length above 8 with the error code -1,
  without reading the rest of it. Hence a session on a loaded word of 9 to 16 letters:
  the server, after the start byte, has sent the welcome message and the first board;
  the client, whose user answered \<open>y\<close>, fails on that board and exits with the code 1.
\<close>

theorem word_length_ceilings_disagree:
  "(\<forall>line. list_all isalpha line \<and> 1 \<le> length line \<and> length line \<le> MAX_WORD_LEN \<longrightarrow>
       load_words [line @ [10]] = Some [map tolower line])
   \<and> (\<forall>k wlen nbad rest. 8 < wlen \<longrightarrow>
         recv_and_print_one_packet (k\<lparr>rx := 0 # wlen # nbad # rest\<rparr>) = (-1, [], k\<lparr>rx := rest\<rparr>))
   \<and> (\<forall>line rnd masked0 incorrect0.
         list_all isalpha line \<and> 9 \<le> length line \<and> length line \<le> MAX_WORD_LEN
         \<and> length masked0 = MAX_WORD_LEN \<and> length incorrect0 = MAX_INCORRECT \<longrightarrow>
           handle_client [map tolower line] rnd masked0 incorrect0
               \<lparr>rx = [0], tx = [], tx_room = None\<rparr>
             = Game Closed (init_session [map tolower line] rnd masked0 incorrect0)
                 \<lparr>rx = [],
                  tx = spec_message (bytes ''Welcome to Hangman'')
                       @ spec_game_control (replicate (length line) 95) [],
                  tx_room = None\<rparr>
           \<and> client_main
               \<lparr>sock = \<lparr>rx = spec_message (bytes ''Welcome to Hangman'')
                             @ spec_game_control (replicate (length line) 95) [],
                        tx = [], tx_room = None\<rparr>,
                stdin = bytes ''y'' @ [10], stdout = []\<rparr>
             = (1, \<lparr>sock = \<lparr>rx = replicate (length line) 95, tx = [0], tx_room = None\<rparr>,
                    stdin = [],
                    stdout = bytes ''>>>Welcome to Hangman'' @ [10]
                             @ bytes ''>>> Ready to start game? (y/n): ''\<rparr>))"
proof (intro conjI allI impI)
  fix line :: "u8 list"
  assume "list_all isalpha line \<and> 1 \<le> length line \<and> length line \<le> MAX_WORD_LEN"
  then show "load_words [line @ [10]] = Some [map tolower line]"
    by (simp add: load_words_word MAX_WORD_LEN_def)
next
  fix k :: conn and wlen nbad :: u8 and rest :: "u8 list"
  assume "8 < wlen"
  then show "recv_and_print_one_packet (k\<lparr>rx := 0 # wlen # nbad # rest\<rparr>)
               = (-1, [], k\<lparr>rx := rest\<rparr>)"
    by (rule recv_and_print_too_long)
next
  fix line masked0 incorrect0 :: "u8 list" and rnd :: nat
  assume h: "list_all isalpha line \<and> 9 \<le> length line \<and> length line \<le> MAX_WORD_LEN
         \<and> length masked0 = MAX_WORD_LEN \<and> length incorrect0 = MAX_INCORRECT"
  define w where "w = map tolower line"
  define s where "s = init_session [w] rnd masked0 incorrect0"
  have ne: "[w] \<noteq> []" by simp
  have len: "\<forall>v\<in>set [w]. 0 < length v \<and> length v \<le> MAX_WORD_LEN"
    using h by (auto simp: w_def)
  from h have l1: "length masked0 = MAX_WORD_LEN" and l2: "length incorrect0 = MAX_INCORRECT"
    by simp_all
  from init_session_start [OF ne len l1 l2, of rnd]
  have "masked_word s = replicate (length line) 95" "incorrect_set s = []"
    by (simp_all add: s_def w_def)
  then have bd: "board s = spec_game_control (replicate (length line) 95) []"
    by (simp add: board_def)
  have "handle_client [w] rnd masked0 incorrect0 \<lparr>rx = [0], tx = [], tx_room = None\<rparr>
      = (case guess_loop s
               (\<lparr>rx = [0], tx = [], tx_room = None\<rparr>
                  \<lparr>rx := [],
                   tx := tx \<lparr>rx = [0], tx = [], tx_room = None\<rparr>
                         @ spec_message (bytes ''Welcome to Hangman'') @ board s\<rparr>)
         of (st, s', c') \<Rightarrow> Game st s' c')"
    unfolding s_def by (rule handle_client_started [OF ne len l1 l2]) simp_all
  then show "handle_client [map tolower line] rnd masked0 incorrect0
               \<lparr>rx = [0], tx = [], tx_room = None\<rparr>
             = Game Closed (init_session [map tolower line] rnd masked0 incorrect0)
                 \<lparr>rx = [],
                  tx = spec_message (bytes ''Welcome to Hangman'')
                       @ spec_game_control (replicate (length line) 95) [],
                  tx_room = None\<rparr>"
    by (simp add: guess_loop_eof bd s_def [symmetric] w_def [symmetric])
next
  fix line masked0 incorrect0 :: "u8 list" and rnd :: nat
  assume h: "list_all isalpha line \<and> 9 \<le> length line \<and> length line \<le> MAX_WORD_LEN
         \<and> length masked0 = MAX_WORD_LEN \<and> length incorrect0 = MAX_INCORRECT"
  then have "8 < length line" "length line \<le> 16"
    by (simp_all add: MAX_WORD_LEN_def)
  then show "client_main
               \<lparr>sock = \<lparr>rx = spec_message (bytes ''Welcome to Hangman'')
                             @ spec_game_control (replicate (length line) 95) [],
                        tx = [], tx_room = None\<rparr>,
                stdin = bytes ''y'' @ [10], stdout = []\<rparr>
             = (1, \<lparr>sock = \<lparr>rx = replicate (length line) 95, tx = [0], tx_room = None\<rparr>,
                    stdin = [],
                    stdout = bytes ''>>>Welcome to Hangman'' @ [10]
                             @ bytes ''>>> Ready to start game? (y/n): ''\<rparr>)"
    by (rule client_rejects_long_board)
qed

theorem word_length_ceilings_disagree_witness:
  "list_all isalpha (bytes ''Stegosaurus'') \<and> 9 \<le> length (bytes ''Stegosaurus'')
   \<and> length (bytes ''Stegosaurus'') \<le> MAX_WORD_LEN
   \<and> load_words [bytes ''Stegosaurus'' @ [10]] = Some [bytes ''stegosaurus'']
   \<and> (8 :: u8) < 11
   \<and> recv_and_print_one_packet \<lparr>rx = [0, 11, 0] @ replicate 11 95, tx = [0], tx_room = None\<rparr>
      = (-1, [], \<lparr>rx = replicate 11 95, tx = [0], tx_room = None\<rparr>)
   \<and> fst (client_main
             \<lparr>sock = \<lparr>rx = spec_message (bytes ''Welcome to Hangman'')
                           @ spec_game_control (replicate 11 95) [],
                      tx = [], tx_room = None\<rparr>,
              stdin = bytes ''y'' @ [10], stdout = []\<rparr>) = 1"
proof -
  let ?line = "bytes ''Stegosaurus''"
  have al: "list_all isalpha ?line" by code_simp
  have n: "length ?line = 11" by (simp add: length_bytes)
  have lo: "map tolower ?line = bytes ''stegosaurus''" by code_simp
  have mx: "MAX_WORD_LEN = 16" by (simp add: MAX_WORD_LEN_def)
  have l1: "length (replicate 16 (0 :: u8)) = MAX_WORD_LEN"
    and l2: "length (replicate 8 (0 :: u8)) = MAX_INCORRECT"
    by (simp_all add: MAX_WORD_LEN_def MAX_INCORRECT_def)
  note t = word_length_ceilings_disagree
  have a: "load_words [?line @ [10]] = Some [bytes ''stegosaurus'']"
    using t [THEN conjunct1, rule_format, of ?line] al n mx lo by simp
  have lt: "(8 :: u8) < 11" by simp
  have b: "recv_and_print_one_packet
             (\<lparr>rx = [], tx = [0], tx_room = None\<rparr>\<lparr>rx := 0 # 11 # 0 # replicate 11 95\<rparr>)
           = (-1, [], \<lparr>rx = [], tx = [0], tx_room = None\<rparr>\<lparr>rx := replicate 11 95\<rparr>)"
    using t [THEN conjunct2, THEN conjunct1, rule_format, OF lt] .
  then have b': "recv_and_print_one_packet
             \<lparr>rx = [0, 11, 0] @ replicate 11 95, tx = [0], tx_room = None\<rparr>
           = (-1, [], \<lparr>rx = replicate 11 95, tx = [0], tx_room = None\<rparr>)"
    by simp
  have "list_all isalpha ?line \<and> 9 \<le> length ?line \<and> length ?line \<le> MAX_WORD_LEN
         \<and> length (replicate 16 (0 :: u8)) = MAX_WORD_LEN
         \<and> length (replicate 8 (0 :: u8)) = MAX_INCORRECT"
    using al n mx l1 l2 by simp
  from t [THEN conjunct2, THEN conjunct2, rule_format, OF this, of 0, THEN conjunct2]
  have c: "fst (client_main
             \<lparr>sock = \<lparr>rx = spec_message (bytes ''Welcome to Hangman'')
                           @ spec_game_control (replicate 11 95) [],
                      tx = [], tx_room = None\<rparr>,
              stdin = bytes ''y'' @ [10], stdout = []\<rparr>) = 1"
    by (simp add: n)
  from al n mx a lt b' c show ?thesis
    by simp
qed

section \<open>The start prompt\<close>

lemma fgets_first:
  assumes "fgets 128 inp = Some (ln, rest)"
  shows "ln \<noteq> [] \<and> ln ! 0 = hd inp"
proof -
  from assms have ne: "inp \<noteq> []"
    and ln: "ln = take (min 127 (length (takeWhile (\<lambda>b. b \<noteq> 10) inp) + 1)) inp"
    by (auto simp: fgets_def Let_def split: if_splits)
  from ne obtain b bs where "inp = b # bs" by (cases inp) auto
  with ln show ?thesis by (cases "b = 10") simp_all
qed

text \<open>
  C8, as the code has it. The client looks at the first byte of the line only. When it
  is \<open>y\<close> or \<open>Y\<close>, the client sends the start byte and goes on to wait for the board,
  whatever follows on the line; for every other first byte it leaves with the exit code
  0 and has sent nothing.
\<close>

theorem start_prompt_first_byte:
  assumes "fgets 128 (stdin k) = Some (ln, rest)" and "tx_room (sock k) = None"
  shows "ln ! 0 = hd (stdin k)
     \<and> (hd (stdin k) = 121 \<or> hd (stdin k) = 89 \<longrightarrow>
          start_prompt k =
            play (k\<lparr>stdout := stdout k @ bytes ''>>> Ready to start game? (y/n): '',
                    stdin := rest,
                    sock := (sock k)\<lparr>tx := tx (sock k) @ [0]\<rparr>\<rparr>))
     \<and> (hd (stdin k) \<noteq> 121 \<and> hd (stdin k) \<noteq> 89 \<longrightarrow>
          start_prompt k =
            (0, k\<lparr>stdout := stdout k @ bytes ''>>> Ready to start game? (y/n): '',
                   stdin := rest\<rparr>))"
proof -
  from fgets_first [OF assms(1)] have f: "ln ! 0 = hd (stdin k)" by simp
  show ?thesis
    using assms f by (simp add: start_prompt_def send_all_def)
qed

theorem start_prompt_first_byte_witness:
  "fgets 128 (bytes ''no'' @ [10]) = Some (bytes ''no'' @ [10], [])
   \<and> start_prompt \<lparr>sock = \<lparr>rx = [], tx = [], tx_room = None\<rparr>,
                    stdin = bytes ''no'' @ [10], stdout = []\<rparr>
      = (0, \<lparr>sock = \<lparr>rx = [], tx = [], tx_room = None\<rparr>, stdin = [],
             stdout = bytes ''>>> Ready to start game? (y/n): ''\<rparr>)
   \<and> fgets 128 (bytes ''Yes'' @ [10]) = Some (bytes ''Yes'' @ [10], [])
   \<and> start_prompt \<lparr>sock = \<lparr>rx = [], tx = [], tx_room = None\<rparr>,
                    stdin = bytes ''Yes'' @ [10], stdout = []\<rparr>
      = play \<lparr>sock = \<lparr>rx = [], tx = [0], tx_room = None\<rparr>, stdin = [],
              stdout = bytes ''>>> Ready to start game? (y/n): ''\<rparr>"
proof -
  let ?k = "\<lparr>sock = \<lparr>rx = [], tx = [], tx_room = None\<rparr>,
             stdin = bytes ''no'' @ [10], stdout = []\<rparr>"
  let ?k' = "\<lparr>sock = \<lparr>rx = [], tx = [], tx_room = None\<rparr>,
             stdin = bytes ''Yes'' @ [10], stdout = []\<rparr>"
  have f: "fgets 128 (bytes ''no'' @ [10]) = Some (bytes ''no'' @ [10], [])" by code_simp
  have f': "fgets 128 (bytes ''Yes'' @ [10]) = Some (bytes ''Yes'' @ [10], [])" by code_simp
  have h: "hd (bytes ''no'' @ [10]) \<noteq> (121 :: u8) \<and> hd (bytes ''no'' @ [10]) \<noteq> (89 :: u8)"
    by (simp add: bytes_def)
  have h': "hd (bytes ''Yes'' @ [10]) = (89 :: u8)"
    by (simp add: bytes_def)
  have a: "start_prompt ?k
      = (0, \<lparr>sock = \<lparr>rx = [], tx = [], tx_room = None\<rparr>, stdin = [],
             stdout = bytes ''>>> Ready to start game? (y/n): ''\<rparr>)"
    using start_prompt_first_byte [of ?k "bytes ''no'' @ [10]" "[]"] f h by simp
  have b: "start_prompt ?k'
      = play \<lparr>sock = \<lparr>rx = [], tx = [0], tx_room = None\<rparr>, stdin = [],
              stdout = bytes ''>>> Ready to start game? (y/n): ''\<rparr>"
    using start_prompt_first_byte [of ?k' "bytes ''Yes'' @ [10]" "[]"] f' h' by simp
  from f a f' b show ?thesis by blast
qed

text \<open>
  C8, as the specification words it, fails: the answer "yuck, no" is not the
  affirmative answer, and the client sends the start byte.
\<close>

theorem start_prompt_affirmative_counterexample:
  "\<not> (\<forall>k ln rest.
        fgets 128 (stdin k) = Some (ln, rest) \<longrightarrow> tx_room (sock k) = None \<longrightarrow>
        \<not> spec_affirmative ln \<longrightarrow>
          fst (start_prompt k) = 0 \<and> tx (sock (snd (start_prompt k))) = tx (sock k))"
proof
  let ?k = "\<lparr>sock = \<lparr>rx = [], tx = [], tx_room = None\<rparr>,
             stdin = bytes ''yuck, no'' @ [10], stdout = []\<rparr>"
  assume "\<forall>k ln rest.
        fgets 128 (stdin k) = Some (ln, rest) \<longrightarrow> tx_room (sock k) = None \<longrightarrow>
        \<not> spec_affirmative ln \<longrightarrow>
          fst (start_prompt k) = 0 \<and> tx (sock (snd (start_prompt k))) = tx (sock k)"
  moreover have "fgets 128 (stdin ?k) = Some (bytes ''yuck, no'' @ [10], [])" by code_simp
  moreover have "tx_room (sock ?k) = None" by simp
  moreover have "\<not> spec_affirmative (bytes ''yuck, no'' @ [10])" by code_simp
  ultimately have "tx (sock (snd (start_prompt ?k))) = tx (sock ?k)" by blast
  moreover have "tx (sock (snd (start_prompt ?k))) = [0]" by code_simp
  ultimately show False by simp
qed

end
